theory Spec2Isabelle
  imports Complex_Main "HOL-Library.Word"
begin

unbundle bit_operations_syntax

section \<open>Python values used by the notebooks\<close>

text \<open>
  A Python \<open>str\<close> is a sequence of Unicode code points; a word read from the word file may
  hold any of them, so a \<open>str\<close> that is hashed is a list of code points (\<open>nat\<close>, below
  \<open>0x110000\<close>). Text that the notebooks build themselves (hex digests, printed lines,
  request fields) is ASCII and is written as an Isabelle \<open>string\<close>. A \<open>bytes\<close> object is a
  list of 8-bit words.
\<close>

type_synonym pystr = "nat list"
type_synonym byte = "8 word"
type_synonym u64 = "64 word"

definition is_surrogate :: "nat \<Rightarrow> bool" where
  "is_surrogate c = (0xD800 \<le> c \<and> c \<le> 0xDFFF)"

section \<open>The hashing primitive: SHA-512 (FIPS 180-4)\<close>

text \<open>
  \<open>hashlib.sha512\<close> is borrowed library behaviour. It is written out here as the standard
  defines it, on 64-bit words, so that the digest of \<open>hash_word\<close> is a computed value.
\<close>

definition rotr :: "nat \<Rightarrow> u64 \<Rightarrow> u64" where
  "rotr n x = drop_bit n x OR push_bit (64 - n) x"

definition Ch :: "u64 \<Rightarrow> u64 \<Rightarrow> u64 \<Rightarrow> u64" where
  "Ch x y z = (x AND y) XOR (NOT x AND z)"

definition Maj :: "u64 \<Rightarrow> u64 \<Rightarrow> u64 \<Rightarrow> u64" where
  "Maj x y z = (x AND y) XOR (x AND z) XOR (y AND z)"

definition Sigma0 :: "u64 \<Rightarrow> u64" where
  "Sigma0 x = rotr 28 x XOR rotr 34 x XOR rotr 39 x"

definition Sigma1 :: "u64 \<Rightarrow> u64" where
  "Sigma1 x = rotr 14 x XOR rotr 18 x XOR rotr 41 x"

definition sigma0 :: "u64 \<Rightarrow> u64" where
  "sigma0 x = rotr 1 x XOR rotr 8 x XOR drop_bit 7 x"

definition sigma1 :: "u64 \<Rightarrow> u64" where
  "sigma1 x = rotr 19 x XOR rotr 61 x XOR drop_bit 6 x"

text \<open>
  The constants are the first sixty-four bits of the fractional parts of the cube roots of
  the first eighty primes (the primes below 410), and the initial hash value is made in
  the same way from the square roots of the first eight primes (those below 20).
  \<open>iroot e n\<close> is the integer \<open>e\<close>-th root of \<open>n\<close>, found bit by bit from the top.
\<close>

fun root_bits :: "nat \<Rightarrow> nat \<Rightarrow> nat \<Rightarrow> nat \<Rightarrow> nat" where
  "root_bits e n 0 r = r"
| "root_bits e n (Suc b) r =
     (if (r + 2 ^ b) ^ e \<le> n then root_bits e n b (r + 2 ^ b) else root_bits e n b r)"

definition iroot :: "nat \<Rightarrow> nat \<Rightarrow> nat" where
  "iroot e n = root_bits e n 80 0"

definition is_prime :: "nat \<Rightarrow> bool" where
  "is_prime p = (1 < p \<and> list_all (\<lambda>d. p mod d \<noteq> 0) [2..<p])"

definition primes_below :: "nat \<Rightarrow> nat list" where
  "primes_below n = filter is_prime [2..<n]"

definition K512 :: "u64 list" where
  "K512 = map (\<lambda>p. of_nat (iroot 3 (p * 2 ^ 192))) (primes_below 410)"

definition H512 :: "u64 list" where
  "H512 = map (\<lambda>p. of_nat (iroot 2 (p * 2 ^ 128))) (primes_below 20)"

text \<open>Big-endian conversion between eight bytes and one 64-bit word.\<close>

definition be_word :: "byte list \<Rightarrow> u64" where
  "be_word bs = foldl (\<lambda>acc b. push_bit 8 acc OR ucast b) 0 bs"

definition be_bytes :: "nat \<Rightarrow> 'a::len word \<Rightarrow> byte list" where
  "be_bytes n x = map (\<lambda>i. ucast (drop_bit (8 * (n - 1 - i)) x)) [0..<n]"

definition word_bytes :: "u64 \<Rightarrow> byte list" where
  "word_bytes x = be_bytes 8 x"

text \<open>A message is cut into 128-byte blocks; a block is sixteen big-endian words.\<close>

function chunks_of :: "nat \<Rightarrow> 'a list \<Rightarrow> 'a list list" where
  "chunks_of n xs = (if n = 0 \<or> xs = [] then [] else take n xs # chunks_of n (drop n xs))"
  by pat_completeness auto
termination
  by (relation "measure (\<lambda>(n, xs). length xs)") auto

declare chunks_of.simps [simp del]

definition block_words :: "byte list \<Rightarrow> u64 list" where
  "block_words blk = map be_word (chunks_of 8 blk)"

text \<open>The message schedule: the sixteen words of the block extended to eighty.\<close>

fun schedule :: "nat \<Rightarrow> u64 list \<Rightarrow> u64 list" where
  "schedule 0 w = w"
| "schedule (Suc k) w =
     (let t = length w
      in schedule k (w @ [sigma1 (w ! (t - 2)) + w ! (t - 7) + sigma0 (w ! (t - 15)) + w ! (t - 16)]))"

text \<open>One round on the working variables \<open>a..h\<close>, kept as a list of eight words.\<close>

fun round512 :: "u64 list \<Rightarrow> u64 \<times> u64 \<Rightarrow> u64 list" where
  "round512 [a, b, c, d, e, f, g, h] (k, w) =
     (let T1 = h + Sigma1 e + Ch e f g + k + w;
          T2 = Sigma0 a + Maj a b c
      in [T1 + T2, a, b, c, d + T1, e, f, g])"
| "round512 v _ = v"

definition compress :: "u64 list \<Rightarrow> byte list \<Rightarrow> u64 list" where
  "compress hs blk =
     map2 (+) hs (foldl round512 hs (zip K512 (schedule 64 (block_words blk))))"

text \<open>Padding: the bit \<open>1\<close>, zeros, and the message length in bits as a 128-bit integer.\<close>

definition padding :: "nat \<Rightarrow> byte list" where
  "padding len =
     0x80 # replicate ((128 - (len + 17) mod 128) mod 128) 0 @ be_bytes 16 (of_nat (8 * len) :: 128 word)"

definition finish :: "u64 list \<Rightarrow> byte list" where
  "finish hs = concat (map word_bytes hs)"

definition SHA512 :: "byte list \<Rightarrow> byte list" where
  "SHA512 msg = finish (foldl compress H512 (chunks_of 128 (msg @ padding (length msg))))"

text \<open>
  The hash object that \<open>sha512()\<close> returns works incrementally: it keeps the chaining value,
  the bytes of the last incomplete block and the number of bytes fed so far. \<open>update\<close>
  compresses every complete block; \<open>digest\<close> pads what is left and finishes.
\<close>

record sha512_object =
  hstate :: "u64 list"
  buffer :: "byte list"
  count :: nat

definition sha512_init :: sha512_object where
  "sha512_init = \<lparr>hstate = H512, buffer = [], count = 0\<rparr>"

definition sha512_update :: "sha512_object \<Rightarrow> byte list \<Rightarrow> sha512_object" where
  "sha512_update obj data =
     (let pending = buffer obj @ data;
          n = (length pending div 128) * 128
      in obj\<lparr>hstate := foldl compress (hstate obj) (chunks_of 128 (take n pending)),
              buffer := drop n pending,
              count := count obj + length data\<rparr>)"

definition sha512_digest :: "sha512_object \<Rightarrow> byte list" where
  "sha512_digest obj =
     finish (foldl compress (hstate obj) (chunks_of 128 (buffer obj @ padding (count obj))))"

definition hex_digit :: "nat \<Rightarrow> char" where
  "hex_digit n = ''0123456789abcdef'' ! n"

definition hex_byte :: "byte \<Rightarrow> string" where
  "hex_byte b = [hex_digit (unat b div 16), hex_digit (unat b mod 16)]"

definition hexlify :: "byte list \<Rightarrow> string" where
  "hexlify bs = concat (map hex_byte bs)"

section \<open>Encoding a str as UTF-8\<close>

text \<open>
  \<open>word.encode('utf-8')\<close> uses the strict error handler: a surrogate code point
  (\<open>U+D800\<close> to \<open>U+DFFF\<close>) cannot be encoded and raises \<open>UnicodeEncodeError\<close>, which
  carries the string and the positions of the run of surrogates.
\<close>

datatype encode_error = UnicodeEncodeError pystr nat nat

definition utf8_char :: "nat \<Rightarrow> byte list" where
  "utf8_char c =
     (if c < 0x80 then [of_nat c]
      else if c < 0x800 then [of_nat (0xC0 + c div 64), of_nat (0x80 + c mod 64)]
      else if c < 0x10000 then
        [of_nat (0xE0 + c div 4096), of_nat (0x80 + c div 64 mod 64), of_nat (0x80 + c mod 64)]
      else
        [of_nat (0xF0 + c div 262144), of_nat (0x80 + c div 4096 mod 64),
         of_nat (0x80 + c div 64 mod 64), of_nat (0x80 + c mod 64)])"

fun encode_from :: "pystr \<Rightarrow> nat \<Rightarrow> pystr \<Rightarrow> encode_error + byte list" where
  "encode_from s i [] = Inr []"
| "encode_from s i (c # cs) =
     (if is_surrogate c
      then Inl (UnicodeEncodeError s i (i + 1 + length (takeWhile is_surrogate cs)))
      else (case encode_from s (i + 1) cs of
              Inl e \<Rightarrow> Inl e
            | Inr bs \<Rightarrow> Inr (utf8_char c @ bs)))"

definition encode_utf8 :: "pystr \<Rightarrow> encode_error + byte list" where
  "encode_utf8 s = encode_from s 0 s"

section \<open>hash\_word\<close>

text \<open>
  Hash objects live in a store, addressed by their index: \<open>sha512()\<close> allocates a new
  object, \<open>update\<close> and \<open>hexdigest\<close> go through its reference. The store that a call of
  \<open>hash_word\<close> finds holds whatever earlier calls left behind.
\<close>

type_synonym store = "sha512_object list"

definition sha512 :: "store \<Rightarrow> nat \<times> store" where
  "sha512 s = (length s, s @ [sha512_init])"

definition update :: "nat \<Rightarrow> byte list \<Rightarrow> store \<Rightarrow> store" where
  "update ref data s = (if ref < length s then s[ref := sha512_update (s ! ref) data] else s)"

definition hexdigest :: "nat \<Rightarrow> store \<Rightarrow> string" where
  "hexdigest ref s = hexlify (sha512_digest (s ! ref))"

definition hash_word :: "pystr \<Rightarrow> store \<Rightarrow> (encode_error + string) \<times> store" where
  "hash_word word s =
     (let (hash_object, s1) = sha512 s
      in case encode_utf8 word of
           Inl e \<Rightarrow> (Inl e, s1)
         | Inr byte_data \<Rightarrow>
             (let s2 = update hash_object byte_data s1
              in (Inr (hexdigest hash_object s2), s2)))"

text \<open>A sequence of calls, each in the store the previous one left.\<close>

fun calls :: "pystr list \<Rightarrow> store \<Rightarrow> store" where
  "calls [] s = s"
| "calls (w # ws) s = calls ws (snd (hash_word w s))"

text \<open>The right-hand side of the specification: \<open>hexdigest(SHA512(utf8_encode(w)))\<close>.\<close>

definition spec_hash :: "pystr \<Rightarrow> encode_error + string" where
  "spec_hash w = (case encode_utf8 w of Inl e \<Rightarrow> Inl e | Inr bs \<Rightarrow> Inr (hexlify (SHA512 bs)))"

section \<open>Reading the word file\<close>

text \<open>
  The file is opened in text mode, so what \<open>readlines\<close> sees is the decoded text with
  universal newlines: \<open>\r\n\<close> and a lone \<open>\r\<close> have become \<open>\n\<close>. \<open>readline\<close>
  returns the text up to and including the next newline, and the rest of the file;
  \<open>readlines\<close> calls it until the file is exhausted.
\<close>

definition LF :: nat where
  "LF = 10"

definition CR :: nat where
  "CR = 13"

fun translate_newlines :: "pystr \<Rightarrow> pystr" where
  "translate_newlines [] = []"
| "translate_newlines [c] = (if c = CR then [LF] else [c])"
| "translate_newlines (c # d # cs) =
     (if c = CR \<and> d = LF then LF # translate_newlines cs
      else if c = CR then LF # translate_newlines (d # cs)
      else c # translate_newlines (d # cs))"

fun readline :: "pystr \<Rightarrow> pystr \<times> pystr" where
  "readline [] = ([], [])"
| "readline (c # cs) =
     (if c = LF then ([c], cs)
      else (let (l, rest) = readline cs in (c # l, rest)))"

lemma readline_shorter: "length (snd (readline cs)) \<le> length cs"
  by (induction cs) (simp_all add: split_beta le_SucI)

function readlines :: "pystr \<Rightarrow> pystr list" where
  "readlines f = (if f = [] then [] else fst (readline f) # readlines (snd (readline f)))"
  by pat_completeness auto
termination
proof (relation "measure length")
  show "wf (measure length)" by simp
next
  fix f :: pystr
  assume "f \<noteq> []"
  then obtain c cs where f: "f = c # cs"
    by (cases f) auto
  have "length (snd (readline (c # cs))) \<le> length cs"
    using readline_shorter [of cs] by (simp add: split_beta)
  with f show "(snd (readline f), f) \<in> measure length"
    by simp
qed

declare readlines.simps [simp del]

definition words_of_file :: "pystr \<Rightarrow> pystr list" where
  "words_of_file content = readlines (translate_newlines content)"

section \<open>The worker pool\<close>

text \<open>
  A function run by the pool takes its argument and the state of the process it runs in,
  and returns a result or an exception together with the new state. \<open>mapstar\<close> is what a
  worker does with one chunk: \<open>list(map(func, chunk))\<close>, which stops at the first exception.
\<close>

fun mapstar :: "('a \<Rightarrow> 's \<Rightarrow> ('e + 'b) \<times> 's) \<Rightarrow> 'a list \<Rightarrow> 's \<Rightarrow> ('e + 'b list) \<times> 's" where
  "mapstar func [] s = (Inr [], s)"
| "mapstar func (x # xs) s =
     (case func x s of
        (Inl e, s') \<Rightarrow> (Inl e, s')
      | (Inr y, s') \<Rightarrow>
          (case mapstar func xs s' of
             (Inl e, s'') \<Rightarrow> (Inl e, s'')
           | (Inr ys, s'') \<Rightarrow> (Inr (y # ys), s'')))"

text \<open>\<open>Pool._get_tasks\<close>: successive slices of \<open>sz\<close> items, until a slice is empty.\<close>

definition get_tasks :: "'a list \<Rightarrow> nat \<Rightarrow> 'a list list" where
  "get_tasks it sz = chunks_of sz it"

text \<open>
  \<open>MapResult\<close> collects the chunks' results. \<open>_value\<close> starts as \<open>[None] * length\<close> and
  becomes the first exception once a chunk has failed.
\<close>

record ('e, 'b) map_result =
  r_success :: bool
  r_value :: "'e + 'b option list"
  r_chunksize :: nat
  r_number_left :: int
  r_ready :: bool

definition MapResult :: "nat \<Rightarrow> nat \<Rightarrow> ('e, 'b) map_result" where
  "MapResult chunksize len =
     \<lparr>r_success = True,
      r_value = Inr (replicate len None),
      r_chunksize = chunksize,
      r_number_left =
        (if chunksize \<le> 0 then 0
         else int (len div chunksize) + (if len mod chunksize \<noteq> 0 then 1 else 0)),
      r_ready = (chunksize \<le> 0)\<rparr>"

text \<open>The slice assignment \<open>v[a:b] = result\<close> (with \<open>a \<le> b\<close>).\<close>

definition slice_assign :: "nat \<Rightarrow> nat \<Rightarrow> 'a list \<Rightarrow> 'a list \<Rightarrow> 'a list" where
  "slice_assign a b result v = take a v @ result @ drop b v"

text \<open>
  \<open>MapResult._set\<close>, called by the pool's result handler when chunk \<open>i\<close> has been run. The
  callbacks act on the state \<open>w\<close> of the main process. \<open>_success\<close> is true exactly as
  long as \<open>_value\<close> is still the list, so the case analysis is on \<open>_value\<close>: where it
  is an exception the source's second branch runs.
\<close>

definition set_result ::
  "('b option list \<Rightarrow> 'w \<Rightarrow> 'w) option \<Rightarrow> ('e \<Rightarrow> 'w \<Rightarrow> 'w) option \<Rightarrow>
   nat \<Rightarrow> 'e + 'b list \<Rightarrow> ('e, 'b) map_result \<times> 'w \<Rightarrow> ('e, 'b) map_result \<times> 'w" where
  "set_result callback error_callback i success_result st =
     (let (r, w) = st;
          r = r\<lparr>r_number_left := r_number_left r - 1\<rparr>
      in case (success_result, r_value r) of
           (Inr result, Inr v) \<Rightarrow>
             (if r_success r then
                (let v' = slice_assign (i * r_chunksize r) ((i + 1) * r_chunksize r)
                            (map Some result) v;
                     r = r\<lparr>r_value := Inr v'\<rparr>
                 in if r_number_left r = 0
                    then (r\<lparr>r_ready := True\<rparr>,
                          case callback of None \<Rightarrow> w | Some cb \<Rightarrow> cb v' w)
                    else (r, w))
              else
                (if r_number_left r = 0 then (r\<lparr>r_ready := True\<rparr>, w) else (r, w)))
         | (Inr result, Inl e) \<Rightarrow>
             (if r_number_left r = 0
              then (r\<lparr>r_ready := True\<rparr>,
                    case error_callback of None \<Rightarrow> w | Some cb \<Rightarrow> cb e w)
              else (r, w))
         | (Inl e, _) \<Rightarrow>
             (let r = (if r_success r then r\<lparr>r_success := False, r_value := Inl e\<rparr> else r)
              in if r_number_left r = 0
                 then (r\<lparr>r_ready := True\<rparr>,
                       case (error_callback, r_value r) of
                         (Some cb, Inl e') \<Rightarrow> cb e' w
                       | _ \<Rightarrow> w)
                 else (r, w)))"

text \<open>
  \<open>Pool._map_async\<close> and the life of its result. The chunks are run by the workers:
  chunk \<open>i\<close> in a process whose state is \<open>wstate i\<close> when the chunk starts. Their results
  reach the result handler in some order, \<open>order\<close>, a list of chunk numbers; both are
  left to the scheduler.
\<close>

definition default_chunksize :: "nat \<Rightarrow> nat \<Rightarrow> nat" where
  "default_chunksize processes len =
     (let chunksize = len div (processes * 4); extra = len mod (processes * 4)
      in if extra \<noteq> 0 then chunksize + 1 else chunksize)"

definition chunk_results ::
  "('a \<Rightarrow> 's \<Rightarrow> ('e + 'b) \<times> 's) \<Rightarrow> 'a list list \<Rightarrow> (nat \<Rightarrow> 's) \<Rightarrow> ('e + 'b list) list" where
  "chunk_results func task_batches wstate =
     map (\<lambda>i. fst (mapstar func (task_batches ! i) (wstate i))) [0..<length task_batches]"

definition deliver ::
  "('b option list \<Rightarrow> 'w \<Rightarrow> 'w) option \<Rightarrow> ('e \<Rightarrow> 'w \<Rightarrow> 'w) option \<Rightarrow> ('e + 'b list) list \<Rightarrow>
   nat list \<Rightarrow> ('e, 'b) map_result \<times> 'w \<Rightarrow> ('e, 'b) map_result \<times> 'w" where
  "deliver callback error_callback results order st =
     foldl (\<lambda>st i. if i < length results
                    then set_result callback error_callback i (results ! i) st else st)
       st order"

definition map_async ::
  "nat \<Rightarrow> ('a \<Rightarrow> 's \<Rightarrow> ('e + 'b) \<times> 's) \<Rightarrow> 'a list \<Rightarrow> nat option \<Rightarrow>
   ('b option list \<Rightarrow> 'w \<Rightarrow> 'w) option \<Rightarrow> ('e \<Rightarrow> 'w \<Rightarrow> 'w) option \<Rightarrow>
   (nat \<Rightarrow> 's) \<Rightarrow> nat list \<Rightarrow> 'w \<Rightarrow> ('e, 'b) map_result \<times> 'w" where
  "map_async processes func iterable chunksize callback error_callback wstate order w =
     (let chunksize = (case chunksize of
                         None \<Rightarrow> default_chunksize processes (length iterable)
                       | Some c \<Rightarrow> c);
          chunksize = (if length iterable = 0 then 0 else chunksize);
          task_batches = get_tasks iterable chunksize;
          result = MapResult chunksize (length iterable)
      in deliver callback error_callback (chunk_results func task_batches wstate) order
           (result, w))"

text \<open>
  \<open>get\<close> waits until the result is ready: \<open>None\<close> stands for a wait that never ends.
  A ready result returns its list or raises its exception.
\<close>

definition get :: "('e, 'b) map_result \<Rightarrow> ('e + 'b option list) option" where
  "get r = (if r_ready r then Some (r_value r) else None)"

definition pool_map ::
  "nat \<Rightarrow> ('a \<Rightarrow> 's \<Rightarrow> ('e + 'b) \<times> 's) \<Rightarrow> 'a list \<Rightarrow> (nat \<Rightarrow> 's) \<Rightarrow> nat list \<Rightarrow>
   ('e + 'b option list) option" where
  "pool_map processes func iterable wstate order =
     get (fst (map_async processes func iterable None None None wstate order ()))"

text \<open>
  An order in which every one of \<open>n\<close> chunks reports exactly once: what the pool
  guarantees when it is closed and joined.
\<close>

definition reports_each_once :: "nat \<Rightarrow> nat list \<Rightarrow> bool" where
  "reports_each_once n order = (distinct order \<and> set order = {..<n})"

definition effective_chunksize :: "nat \<Rightarrow> nat \<Rightarrow> nat option \<Rightarrow> nat" where
  "effective_chunksize procs len chunksize =
     (if len = 0 then 0
      else case chunksize of None \<Rightarrow> default_chunksize procs len | Some c \<Rightarrow> c)"

definition n_chunks :: "nat \<Rightarrow> nat \<Rightarrow> nat option \<Rightarrow> nat" where
  "n_chunks procs len chunksize =
     (let c = effective_chunksize procs len chunksize
      in if c = 0 then 0 else len div c + (if len mod c \<noteq> 0 then 1 else 0))"


text \<open>
  What a result holds after the chunks \<open>ds\<close> have reported, written out: the exception of
  the first failed chunk among them if there is one, and else the list with the slots of
  the reported chunks filled; and what the callbacks have made of the main process's state
  by then, which is nothing before the last chunk has reported.
\<close>

definition first_failure :: "('e + 'b list) list \<Rightarrow> nat list \<Rightarrow> 'e option" where
  "first_failure rs ds =
     (case find (\<lambda>i. isl (rs ! i)) ds of None \<Rightarrow> None | Some i \<Rightarrow> Some (projl (rs ! i)))"

definition filled :: "nat \<Rightarrow> nat \<Rightarrow> ('e + 'b list) list \<Rightarrow> nat list \<Rightarrow> 'b option list" where
  "filled len cs rs ds =
     map (\<lambda>j. if j div cs \<in> set ds then Some (projr (rs ! (j div cs)) ! (j mod cs)) else None)
       [0..<len]"

definition collected ::
  "nat \<Rightarrow> nat \<Rightarrow> ('e + 'b list) list \<Rightarrow> nat list \<Rightarrow> ('e, 'b) map_result" where
  "collected len cs rs ds =
     \<lparr>r_success = (first_failure rs ds = None),
      r_value = (case first_failure rs ds of None \<Rightarrow> Inr (filled len cs rs ds) | Some e \<Rightarrow> Inl e),
      r_chunksize = cs,
      r_number_left = int (length rs) - int (length ds),
      r_ready = (length ds = length rs)\<rparr>"

definition called_back ::
  "('b option list \<Rightarrow> 'w \<Rightarrow> 'w) option \<Rightarrow> ('e \<Rightarrow> 'w \<Rightarrow> 'w) option \<Rightarrow>
   nat \<Rightarrow> nat \<Rightarrow> ('e + 'b list) list \<Rightarrow> nat list \<Rightarrow> 'w \<Rightarrow> 'w" where
  "called_back callback error_callback len cs rs ds w =
     (if ds \<noteq> [] \<and> length ds = length rs
      then (case first_failure rs ds of
              None \<Rightarrow> (case callback of None \<Rightarrow> w | Some cb \<Rightarrow> cb (filled len cs rs ds) w)
            | Some e \<Rightarrow> (case error_callback of None \<Rightarrow> w | Some cb \<Rightarrow> cb e w))
      else w)"

text \<open>
  The chunks' results fit the chunking: there are chunks only for a positive chunk size,
  every chunk starts inside the input, and a chunk that succeeded has one result for each
  of its items.
\<close>

definition wf_results :: "nat \<Rightarrow> nat \<Rightarrow> ('e + 'b list) list \<Rightarrow> bool" where
  "wf_results len cs rs \<longleftrightarrow>
     (rs \<noteq> [] \<longrightarrow> 0 < cs) \<and>
     (\<forall>i<length rs. i * cs < len \<and>
        (\<forall>ys. rs ! i = Inr ys \<longrightarrow> length ys = min cs (len - i * cs)))"

section \<open>Hashing the word list, serially and in parallel\<close>

definition processes :: nat where
  "processes = 8"

text \<open>The set comprehension \<open>{hash_word(w) for w in words}\<close>.\<close>

fun set_comprehension ::
  "('a \<Rightarrow> 's \<Rightarrow> ('e + 'b) \<times> 's) \<Rightarrow> 'a list \<Rightarrow> 'b set \<Rightarrow> 's \<Rightarrow> ('e + 'b set) \<times> 's" where
  "set_comprehension func [] acc s = (Inr acc, s)"
| "set_comprehension func (w # ws) acc s =
     (case func w s of
        (Inl e, s') \<Rightarrow> (Inl e, s')
      | (Inr y, s') \<Rightarrow> set_comprehension func ws (insert y acc) s')"

definition known_words_serial :: "pystr list \<Rightarrow> store \<Rightarrow> encode_error + string set" where
  "known_words_serial words s = fst (set_comprehension hash_word words {} s)"

definition known_words_parallel ::
  "pystr list \<Rightarrow> (nat \<Rightarrow> store) \<Rightarrow> nat list \<Rightarrow> (encode_error + string option set) option" where
  "known_words_parallel words wstate order =
     (case pool_map processes hash_word words wstate order of
        None \<Rightarrow> None
      | Some (Inl e) \<Rightarrow> Some (Inl e)
      | Some (Inr hs) \<Rightarrow> Some (Inr (set hs)))"

section \<open>The asynchronous example\<close>

text \<open>
  Printing a Python \<open>int\<close>, and a float with the format \<open>.3f\<close>. A float is modelled by
  the rational number it stands for; \<open>.3f\<close> rounds that number to thousandths, ties to
  even.
\<close>

definition digit_char :: "nat \<Rightarrow> char" where
  "digit_char d = ''0123456789'' ! d"

function str_nat :: "nat \<Rightarrow> string" where
  "str_nat n = (if n < 10 then [digit_char n] else str_nat (n div 10) @ [digit_char (n mod 10)])"
  by pat_completeness auto
termination
  by (relation "measure id") auto

declare str_nat.simps [simp del]

definition str_int :: "int \<Rightarrow> string" where
  "str_int i = (if i < 0 then CHR ''-'' # str_nat (nat (- i)) else str_nat (nat i))"

definition round_half_even :: "rat \<Rightarrow> int" where
  "round_half_even x =
     (let f = \<lfloor>x\<rfloor>; d = x - of_int f
      in if d < 1 / 2 then f else if 1 / 2 < d then f + 1 else if even f then f else f + 1)"

definition format_3f :: "rat \<Rightarrow> string" where
  "format_3f x =
     (let n = nat (round_half_even (\<bar>x\<bar> * 1000))
      in (if x < 0 then ''-'' else []) @ str_nat (n div 1000) @ ''.'' @
         [digit_char (n div 100 mod 10), digit_char (n div 10 mod 10), digit_char (n mod 10)])"

text \<open>
  The state of a process that runs \<open>task\<close>: the 32-bit outputs its Mersenne Twister will
  give and how many of them are used up, the sleeps it has made and the lines it has
  printed. \<open>random()\<close> builds a 53-bit fraction from two outputs, \<open>a = out >> 5\<close> and
  \<open>b = out >> 6\<close>, as \<open>(a * 2^26 + b) / 2^53\<close>.
\<close>

record process =
  genrand :: "nat \<Rightarrow> 32 word"
  used :: nat
  slept :: "rat list"
  stdout :: "string list"

datatype value_error = ValueError string

definition random :: "process \<Rightarrow> rat \<times> process" where
  "random p =
     (let a = unat (drop_bit 5 (genrand p (used p)));
          b = unat (drop_bit 6 (genrand p (used p + 1)))
      in (of_nat (a * 67108864 + b) / 9007199254740992, p\<lparr>used := used p + 2\<rparr>))"

definition sleep :: "rat \<Rightarrow> process \<Rightarrow> (value_error + unit) \<times> process" where
  "sleep secs p =
     (if secs < 0 then (Inl (ValueError ''sleep length must be non-negative''), p)
      else (Inr (), p\<lparr>slept := slept p @ [secs]\<rparr>))"

definition print :: "string \<Rightarrow> process \<Rightarrow> process" where
  "print line p = p\<lparr>stdout := stdout p @ [line]\<rparr>"

definition task_line :: "int \<times> rat \<Rightarrow> string" where
  "task_line result =
     ''>task('' @ str_int (fst result) @ ''):'' @ format_3f (snd result) @ [CHR 0x0A]"

definition task :: "int \<Rightarrow> process \<Rightarrow> (value_error + unit) \<times> process" where
  "task v p =
     (if v = 42 \<or> v = 13
      then (Inl (ValueError (str_int v @ '' is an impossible value!'')), p)
      else (let (random_value, p) = random p
            in case sleep random_value p of
                 (Inl e, p) \<Rightarrow> (Inl e, p)
               | (Inr u, p) \<Rightarrow>
                   (let result = (v, random_value);
                        p = print (task_line result) p
                    in (Inr (), p))))"

text \<open>
  The error callback runs in the main process; its state here is the list of lines the
  callback has printed. \<open>str\<close> of a \<open>ValueError\<close> is its message.
\<close>

definition str_error :: "value_error \<Rightarrow> string" where
  "str_error e = (case e of ValueError msg \<Rightarrow> msg)"

definition galactic_error :: "value_error \<Rightarrow> string list \<Rightarrow> string list" where
  "galactic_error e out = out @ [''***'' @ str_error e @ ''***'' @ [CHR 0x0A]]"

definition range_py :: "nat \<Rightarrow> int list" where
  "range_py n = map int [0..<n]"

text \<open>
  The entry point: \<open>pool.map_async(task, range(60), chunksize=16,
  error_callback=galactic_error)\<close> on a pool of eight processes, closed and joined.
  \<open>main_task\<close>, which the main thread runs meanwhile, prints its own lines and takes no
  part in the pool's work.
\<close>

definition async_example ::
  "(nat \<Rightarrow> process) \<Rightarrow> nat list \<Rightarrow> (value_error, unit) map_result \<times> string list" where
  "async_example wstate order =
     map_async 8 task (range_py 60) (Some 16) None (Some galactic_error) wstate order []"

text \<open>
  The two sentinel values, the exception \<open>task\<close> raises for one, and the exception a run
  of \<open>map_async\<close> over \<open>xs\<close> reports: that of the first sentinel in the first chunk, in
  the order the chunks report, that holds one.
\<close>

definition sentinel :: "int \<Rightarrow> bool" where
  "sentinel v \<longleftrightarrow> v = 42 \<or> v = 13"

definition impossible :: "int \<Rightarrow> value_error" where
  "impossible v = ValueError (str_int v @ '' is an impossible value!'')"

definition reported_error :: "int list \<Rightarrow> nat \<Rightarrow> nat list \<Rightarrow> value_error option" where
  "reported_error xs cs order =
     (case find (\<lambda>i. list_ex sentinel (get_tasks xs cs ! i)) order of
        None \<Rightarrow> None
      | Some i \<Rightarrow> map_option impossible (find sentinel (get_tasks xs cs ! i)))"

text \<open>A process to run examples in: its generator gives \<open>0x80000000\<close> every time.\<close>

definition example_process :: process where
  "example_process = \<lparr>genrand = (\<lambda>i. 0x80000000), used = 0, slept = [], stdout = []\<rparr>"

section \<open>The retrieval request\<close>

text \<open>
  \<open>vars\<close> is a dict literal; \<open>vars[thisvar]\<close> raises \<open>KeyError\<close> for a name that is not
  a key. The request is the dataset name, the dict of request fields (in the order they
  are written) and the target file name.
\<close>

datatype key_error = KeyError string

definition vars :: "(string \<times> int) list" where
  "vars = [(''temperature'', 130),
           (''specific humidity'', 111),
           (''surface pressure'', 111),
           (''10-m wind speed'', 111)]"

definition getitem :: "(string \<times> 'v) list \<Rightarrow> string \<Rightarrow> key_error + 'v" where
  "getitem d k = (case map_of d k of None \<Rightarrow> Inl (KeyError k) | Some x \<Rightarrow> Inr x)"

record request =
  dataset :: string
  body :: "(string \<times> string) list"
  target :: string

definition retrieve_request :: "string \<Rightarrow> string \<Rightarrow> string \<Rightarrow> key_error + request" where
  "retrieve_request thisvar firstdate lastdate =
     (case getitem vars thisvar of
        Inl e \<Rightarrow> Inl e
      | Inr code \<Rightarrow>
          Inr \<lparr>dataset = ''reanalysis-era5-complete'',
               body = [(''class'', ''ea''),
                       (''date'', firstdate @ ''/to/'' @ lastdate),
                       (''expver'', ''1''),
                       (''levelist'', ''137''),
                       (''levtype'', ''ml''),
                       (''param'', str_int code),
                       (''step'', ''0''),
                       (''stream'', ''oper''),
                       (''time'', ''09:00:00/21:00:00''),
                       (''type'', ''4v''),
                       (''format'', ''netcdf'')],
               target = ''era5_'' @ thisvar @ ''_'' @ firstdate @ ''_'' @ lastdate @ ''.nc''\<rparr>)"

definition submitted_request :: "key_error + request" where
  "submitted_request = retrieve_request ''temperature'' ''2023-01-01'' ''2023-01-31''"

section \<open>Properties of the hashing primitive\<close>

lemma chunks_of_append:
  "n dvd length xs \<Longrightarrow> chunks_of n (xs @ ys) = chunks_of n xs @ chunks_of n ys"
proof (induction n xs rule: chunks_of.induct)
  case (1 n xs)
  show ?case
  proof (cases "n = 0 \<or> xs = []")
    case True
    with "1.prems" have "xs = []" by auto
    then show ?thesis by (simp add: chunks_of.simps [of n "[]"])
  next
    case False
    then have n: "n \<noteq> 0" and xs: "xs \<noteq> []" by auto
    from "1.prems" n xs have le: "n \<le> length xs"
      by (auto dest!: dvd_imp_le)
    from "1.prems" le have "n dvd length (drop n xs)"
      by (simp add: dvd_diff_nat)
    with "1.IH" False have IH: "chunks_of n (drop n xs @ ys) = chunks_of n (drop n xs) @ chunks_of n ys"
      by simp
    have "chunks_of n (xs @ ys) = take n (xs @ ys) # chunks_of n (drop n (xs @ ys))"
      using n xs by (simp add: chunks_of.simps [of n "xs @ ys"])
    also have "\<dots> = take n xs # chunks_of n (drop n xs @ ys)"
      using le by simp
    also have "\<dots> = chunks_of n xs @ chunks_of n ys"
      using n xs IH by (simp add: chunks_of.simps [of n xs])
    finally show ?thesis .
  qed
qed

lemma update_then_digest:
  "sha512_digest (sha512_update sha512_init data) = SHA512 data"
proof -
  define n where "n = (length data div 128) * 128"
  have "n \<le> length data"
    by (simp add: n_def)
  then have "length (take n data) = n"
    by simp
  then have dvd: "128 dvd length (take n data)"
    by (simp add: n_def)
  have "foldl compress (foldl compress H512 (chunks_of 128 (take n data)))
          (chunks_of 128 (drop n data @ padding (length data)))
        = foldl compress H512 (chunks_of 128 (take n data @ drop n data @ padding (length data)))"
    by (simp add: chunks_of_append [OF dvd])
  then show ?thesis
    by (simp add: sha512_digest_def sha512_update_def sha512_init_def SHA512_def Let_def
        n_def [symmetric] append_assoc [symmetric] del: append_assoc)
qed

lemma length_round512: "length (round512 v kw) = length v"
  by (cases "(v, kw)" rule: round512.cases) (simp_all add: Let_def)

lemma length_rounds: "length (foldl round512 v kws) = length v"
  by (induction kws arbitrary: v) (simp_all add: length_round512)

lemma length_compress: "length (compress hs blk) = length hs"
  by (simp add: compress_def length_rounds)

lemma length_compress_all: "length (foldl compress hs blks) = length hs"
  by (induction blks arbitrary: hs) (simp_all add: length_compress)

lemma length_finish: "length (finish hs) = 8 * length hs"
  by (induction hs) (simp_all add: finish_def word_bytes_def be_bytes_def)

lemma length_H512: "length H512 = 8"
proof -
  have "length (primes_below 20) = 8"
    by code_simp
  then show ?thesis
    by (simp add: H512_def)
qed

lemma length_SHA512: "length (SHA512 msg) = 64"
  by (simp add: SHA512_def length_finish length_compress_all length_H512)

lemma length_hexlify: "length (hexlify bs) = 2 * length bs"
  by (induction bs) (simp_all add: hexlify_def hex_byte_def)

lemma hex_digit_lower: "n < 16 \<Longrightarrow> hex_digit n \<in> set ''0123456789abcdef''"
  unfolding hex_digit_def by (rule nth_mem) simp

lemma hexlify_lower: "set (hexlify bs) \<subseteq> set ''0123456789abcdef''"
proof (induction bs)
  case Nil
  show ?case by (simp add: hexlify_def)
next
  case (Cons b bs)
  have "unat b < 2 ^ LENGTH(8)"
    by (rule unsigned_less)
  then have "unat b div 16 < 16"
    by simp
  then have "set (hex_byte b) \<subseteq> set ''0123456789abcdef''"
    using hex_digit_lower [of "unat b div 16"] hex_digit_lower [of "unat b mod 16"]
    by (simp add: hex_byte_def)
  with Cons show ?case
    by (simp add: hexlify_def)
qed

section \<open>Properties of the pool\<close>

lemma find_snoc:
  "find P (xs @ [x]) = (case find P xs of None \<Rightarrow> (if P x then Some x else None) | Some y \<Rightarrow> Some y)"
  by (induction xs) simp_all

lemma first_failure_snoc:
  "first_failure rs (ds @ [i]) =
     (case first_failure rs ds of
        Some e \<Rightarrow> Some e
      | None \<Rightarrow> (case rs ! i of Inl e \<Rightarrow> Some e | Inr ys \<Rightarrow> None))"
  by (simp add: first_failure_def find_snoc split: option.split sum.split)

lemma div_eq_chunk:
  fixes i j cs :: nat
  assumes "0 < cs"
  shows "j div cs = i \<longleftrightarrow> i * cs \<le> j \<and> j < i * cs + cs"
proof
  assume "j div cs = i"
  then show "i * cs \<le> j \<and> j < i * cs + cs"
    using assms div_less_iff_less_mult [of cs j "Suc i"] less_eq_div_iff_mult_less_eq [of cs i j]
    by auto
next
  assume "i * cs \<le> j \<and> j < i * cs + cs"
  then show "j div cs = i"
    by (intro div_nat_eqI) (simp_all add: mult.commute)
qed

lemma slice_fill:
  assumes cs: "0 < cs" and i: "i * cs < len"
    and ys: "length ys = min cs (len - i * cs)" and rs: "rs ! i = Inr ys"
  shows "slice_assign (i * cs) ((i + 1) * cs) (map Some ys) (filled len cs rs ds)
         = filled len cs rs (ds @ [i])"
proof (rule nth_equalityI)
  show len: "length (slice_assign (i * cs) ((i + 1) * cs) (map Some ys) (filled len cs rs ds))
        = length (filled len cs rs (ds @ [i]))"
    using i ys by (simp add: slice_assign_def filled_def min_def)
next
  fix j
  assume "j < length (slice_assign (i * cs) ((i + 1) * cs) (map Some ys) (filled len cs rs ds))"
  then have j: "j < len"
    using i ys by (simp add: slice_assign_def filled_def min_def split: if_splits)
  let ?V = "filled len cs rs ds"
  have lenV: "length ?V = len" by (simp add: filled_def)
  consider (before) "j < i * cs" | (inside) "i * cs \<le> j" "j < i * cs + cs" | (after) "i * cs + cs \<le> j"
    by linarith
  then show "slice_assign (i * cs) ((i + 1) * cs) (map Some ys) ?V ! j = filled len cs rs (ds @ [i]) ! j"
  proof cases
    case before
    then have "j div cs \<noteq> i"
      using div_eq_chunk [OF cs, of j i] by simp
    with before j i show ?thesis
      by (simp add: slice_assign_def nth_append lenV) (simp add: filled_def)
  next
    case inside
    then have d: "j div cs = i"
      using div_eq_chunk [OF cs, of j i] by simp
    have m: "j mod cs = j - i * cs"
      using d by (metis minus_div_mult_eq_mod mult.commute)
    from inside j ys have jy: "j - i * cs < length ys"
      by (auto simp: min_def)
    with inside j i show ?thesis
      by (simp add: slice_assign_def nth_append lenV) (simp add: filled_def d m rs)
  next
    case after
    then have d: "j div cs \<noteq> i"
      using div_eq_chunk [OF cs, of j i] by simp
    from after j have full: "length ys = cs"
      using ys by (simp add: min_def)
    from after have n1: "\<not> j < i * cs" and n2: "\<not> j - i * cs < cs"
      and idx: "(i + 1) * cs + (j - i * cs - cs) = j"
      by simp_all
    from i have "min (length ?V) (i * cs) = i * cs"
      by (simp add: lenV)
    then have "slice_assign (i * cs) ((i + 1) * cs) (map Some ys) ?V ! j
          = drop ((i + 1) * cs) ?V ! (j - i * cs - cs)"
      using n1 n2 full by (simp add: slice_assign_def nth_append)
    also have "\<dots> = ?V ! ((i + 1) * cs + (j - i * cs - cs))"
      using after j by (intro nth_drop) (simp add: lenV)
    also have "\<dots> = ?V ! j"
      by (simp only: idx)
    also have "\<dots> = filled len cs rs (ds @ [i]) ! j"
      using j d by (simp add: filled_def)
    finally show ?thesis .
  qed
qed

lemma set_result_step:
  assumes cs: "0 < cs" and len: "length ds < length rs" and i: "i * cs < len"
    and ys: "\<And>ys. rs ! i = Inr ys \<Longrightarrow> length ys = min cs (len - i * cs)"
  shows "set_result cb ecb i (rs ! i) (collected len cs rs ds, w)
         = (collected len cs rs (ds @ [i]), called_back cb ecb len cs rs (ds @ [i]) w)"
proof -
  have last: "int (length rs) - int (length ds) - 1 = 0 \<longleftrightarrow> Suc (length ds) = length rs"
    using len by auto
  show ?thesis
  proof (cases "rs ! i")
    case (Inl e)
    with len show ?thesis
      by (simp add: set_result_def collected_def called_back_def first_failure_snoc last
          Let_def split: option.split)
  next
    case (Inr result)
    show ?thesis
    proof (cases "first_failure rs ds")
      case None
      have "slice_assign (i * cs) ((i + 1) * cs) (map Some result) (filled len cs rs ds)
            = filled len cs rs (ds @ [i])"
        using cs i ys [OF Inr] Inr by (rule slice_fill)
      then have "slice_assign (i * cs) (cs + i * cs) (map Some result) (filled len cs rs ds)
            = filled len cs rs (ds @ [i])"
        by (simp add: add.commute)
      with Inr None len show ?thesis
        by (simp add: set_result_def collected_def called_back_def first_failure_snoc last
            Let_def split: option.split)
    next
      case (Some e)
      with Inr len show ?thesis
        by (simp add: set_result_def collected_def called_back_def first_failure_snoc last
            Let_def split: option.split)
    qed
  qed
qed

lemma distinct_bounded_length:
  "distinct ds \<Longrightarrow> set ds \<subseteq> {..<n} \<Longrightarrow> length ds \<le> (n::nat)"
  using card_mono [of "{..<n}" "set ds"] by (simp add: distinct_card)

lemma deliver_collected:
  assumes wf: "wf_results len cs rs"
  shows "distinct ds \<Longrightarrow> set ds \<subseteq> {..<length rs} \<Longrightarrow>
         deliver cb ecb rs ds (collected len cs rs [], w)
         = (collected len cs rs ds, called_back cb ecb len cs rs ds w)"
proof (induction ds rule: rev_induct)
  case Nil
  show ?case by (simp add: deliver_def called_back_def)
next
  case (snoc i ds)
  from snoc.prems have d: "distinct ds" and s: "set ds \<subseteq> {..<length rs}" and i: "i < length rs"
    by auto
  from snoc.prems have "length (ds @ [i]) \<le> length rs"
    by (intro distinct_bounded_length)
  then have len: "length ds < length rs" by simp
  from i wf have cs: "0 < cs" and ics: "i * cs < len"
    and ys: "\<And>ys. rs ! i = Inr ys \<Longrightarrow> length ys = min cs (len - i * cs)"
    by (auto simp: wf_results_def)
  from len have w: "called_back cb ecb len cs rs ds w = w"
    by (simp add: called_back_def)
  have "deliver cb ecb rs (ds @ [i]) (collected len cs rs [], w)
        = set_result cb ecb i (rs ! i) (deliver cb ecb rs ds (collected len cs rs [], w))"
    using i by (simp add: deliver_def)
  also have "\<dots> = set_result cb ecb i (rs ! i) (collected len cs rs ds, w)"
    using snoc.IH [OF d s] w by simp
  also have "\<dots> = (collected len cs rs (ds @ [i]), called_back cb ecb len cs rs (ds @ [i]) w)"
    using cs len ics ys by (rule set_result_step)
  finally show ?case .
qed

lemma length_chunks_of:
  "length (chunks_of cs xs)
   = (if cs = 0 then 0 else length xs div cs + (if length xs mod cs \<noteq> 0 then 1 else 0))"
proof (induction cs xs rule: chunks_of.induct)
  case (1 n xs)
  show ?case
  proof (cases "n = 0 \<or> xs = []")
    case True
    then show ?thesis by (auto simp: chunks_of.simps [of n xs])
  next
    case False
    then have n: "0 < n" and xs: "xs \<noteq> []" by auto
    have IH: "length (chunks_of n (drop n xs))
          = (length xs - n) div n + (if (length xs - n) mod n \<noteq> 0 then 1 else 0)"
      using "1.IH" False n by simp
    show ?thesis
    proof (cases "n \<le> length xs")
      case True
      then have "length xs div n = Suc ((length xs - n) div n)"
        and "length xs mod n = (length xs - n) mod n"
        using n by (simp_all add: le_div_geq le_mod_geq)
      with IH n xs show ?thesis
        by (simp add: chunks_of.simps [of n xs])
    next
      case False
      with IH n xs show ?thesis
        by (simp add: chunks_of.simps [of n xs] chunks_of.simps [of n "[]"])
    qed
  qed
qed

lemma nth_chunks_of:
  "i < length (chunks_of cs xs) \<Longrightarrow>
   chunks_of cs xs ! i = take cs (drop (i * cs) xs) \<and> i * cs < length xs"
proof (induction cs xs arbitrary: i rule: chunks_of.induct)
  case (1 n xs)
  show ?case
  proof (cases "n = 0 \<or> xs = []")
    case True
    with "1.prems" show ?thesis by (auto simp: chunks_of.simps [of n xs])
  next
    case False
    then have n: "0 < n" and xs: "xs \<noteq> []" by auto
    have unf: "chunks_of n xs = take n xs # chunks_of n (drop n xs)"
      using False by (simp add: chunks_of.simps [of n xs])
    show ?thesis
    proof (cases i)
      case 0
      with unf xs show ?thesis by simp
    next
      case (Suc k)
      with "1.prems" unf have k: "k < length (chunks_of n (drop n xs))" by simp
      from "1.IH" [OF False k]
      have "chunks_of n (drop n xs) ! k = take n (drop (k * n) (drop n xs))"
        and "k * n < length (drop n xs)" by simp_all
      with Suc unf show ?thesis
        by (simp add: add.commute)
    qed
  qed
qed

lemma concat_chunks_of: "0 < cs \<Longrightarrow> concat (chunks_of cs xs) = xs"
proof (induction cs xs rule: chunks_of.induct)
  case (1 n xs)
  show ?case
  proof (cases "xs = []")
    case True
    then show ?thesis by (simp add: chunks_of.simps [of n "[]"])
  next
    case False
    with "1.prems" "1.IH" show ?thesis
      by (simp add: chunks_of.simps [of n xs])
  qed
qed

lemma n_chunks_length:
  "n_chunks procs (length xs) chunksize
   = length (get_tasks xs (effective_chunksize procs (length xs) chunksize))"
  by (simp add: n_chunks_def get_tasks_def length_chunks_of effective_chunksize_def Let_def
      chunks_of.simps [of _ "[]"])

lemma length_mapstar_pair:
  "mapstar func xs s = (Inr ys, s') \<Longrightarrow> length ys = length xs"
proof (induction xs arbitrary: s ys)
  case Nil
  then show ?case by simp
next
  case (Cons x xs)
  then show ?case
    by (auto split: prod.splits sum.splits)
qed

lemma length_mapstar:
  "fst (mapstar func xs s) = Inr ys \<Longrightarrow> length ys = length xs"
  using length_mapstar_pair [of func xs s ys "snd (mapstar func xs s)"]
  by (cases "mapstar func xs s") simp

lemma length_chunk_results [simp]:
  "length (chunk_results func batches wstate) = length batches"
  by (simp add: chunk_results_def)

lemma nth_chunk_results:
  "i < length batches \<Longrightarrow>
   chunk_results func batches wstate ! i = fst (mapstar func (batches ! i) (wstate i))"
  by (simp add: chunk_results_def)

lemma wf_chunk_results:
  "wf_results (length xs) cs (chunk_results func (get_tasks xs cs) wstate)"
proof -
  have "0 < cs" if "chunk_results func (get_tasks xs cs) wstate \<noteq> []"
  proof (rule ccontr)
    assume "\<not> 0 < cs"
    then have "get_tasks xs cs = []"
      by (simp add: get_tasks_def chunks_of.simps [of 0 xs])
    with that show False by (simp add: chunk_results_def)
  qed
  moreover have "i * cs < length xs \<and>
      (\<forall>ys. chunk_results func (get_tasks xs cs) wstate ! i = Inr ys \<longrightarrow>
            length ys = min cs (length xs - i * cs))"
    if i: "i < length (get_tasks xs cs)" for i
  proof -
    from i have c: "get_tasks xs cs ! i = take cs (drop (i * cs) xs)" and l: "i * cs < length xs"
      using nth_chunks_of [of i cs xs] by (simp_all add: get_tasks_def)
    have "length ys = min cs (length xs - i * cs)"
      if "chunk_results func (get_tasks xs cs) wstate ! i = Inr ys" for ys
      using that length_mapstar [of func "get_tasks xs cs ! i" "wstate i" ys] i c
      by (simp add: nth_chunk_results min.commute)
    with l show ?thesis by blast
  qed
  ultimately show ?thesis
    by (simp add: wf_results_def)
qed

lemma MapResult_collected:
  assumes n: "length rs = (if cs = 0 then 0 else len div cs + (if len mod cs \<noteq> 0 then 1 else 0))"
    and empty: "len = 0 \<Longrightarrow> cs = 0"
  shows "MapResult cs len = collected len cs rs []"
proof -
  have ready: "cs = 0 \<longleftrightarrow> length rs = 0"
  proof (cases "cs = 0")
    case True
    with n show ?thesis by simp
  next
    case False
    with empty have len: "0 < len" by auto
    have "0 < len div cs + (if len mod cs \<noteq> 0 then 1 else 0)"
    proof (cases "len mod cs = 0")
      case True
      then have "cs dvd len" by auto
      then have "cs \<le> len" using len by (rule dvd_imp_le)
      with False show ?thesis by (simp add: div_greater_zero_iff)
    next
      case False
      then show ?thesis by simp
    qed
    with n False show ?thesis by simp
  qed
  have "r_number_left (MapResult cs len :: ('a, 'b) map_result) = int (length rs)"
    using n by (simp add: MapResult_def)
  with ready show ?thesis
    by (simp add: MapResult_def collected_def first_failure_def filled_def map_replicate_const)
qed

lemma map_async_delivered:
  assumes d: "distinct ds"
    and s: "set ds \<subseteq> {..<n_chunks procs (length xs) chunksize}"
  shows "map_async procs func xs chunksize cb ecb wstate ds w =
     (let cs = effective_chunksize procs (length xs) chunksize;
          rs = chunk_results func (get_tasks xs cs) wstate
      in (collected (length xs) cs rs ds, called_back cb ecb (length xs) cs rs ds w))"
proof -
  define cs where "cs = effective_chunksize procs (length xs) chunksize"
  define rs where "rs = chunk_results func (get_tasks xs cs) wstate"
  have n: "n_chunks procs (length xs) chunksize = length rs"
    by (simp add: n_chunks_length rs_def cs_def)
  with s have s': "set ds \<subseteq> {..<length rs}"
    by simp
  have wf: "wf_results (length xs) cs rs"
    unfolding rs_def by (rule wf_chunk_results)
  have "length rs = (if cs = 0 then 0
          else length xs div cs + (if length xs mod cs \<noteq> 0 then 1 else 0))"
    by (simp add: rs_def get_tasks_def length_chunks_of)
  then have init: "MapResult cs (length xs) = collected (length xs) cs rs []"
    by (rule MapResult_collected) (simp add: cs_def effective_chunksize_def)
  have "map_async procs func xs chunksize cb ecb wstate ds w
        = deliver cb ecb rs ds (MapResult cs (length xs), w)"
    by (simp add: map_async_def rs_def cs_def effective_chunksize_def Let_def
        split: option.split)
  also have "\<dots> = (collected (length xs) cs rs ds, called_back cb ecb (length xs) cs rs ds w)"
    unfolding init using wf d s' by (rule deliver_collected)
  finally show ?thesis
    by (simp add: Let_def cs_def rs_def)
qed

lemma map_async_collected:
  assumes "reports_each_once (n_chunks procs (length xs) chunksize) order"
  shows "map_async procs func xs chunksize cb ecb wstate order w =
     (let cs = effective_chunksize procs (length xs) chunksize;
          rs = chunk_results func (get_tasks xs cs) wstate
      in (collected (length xs) cs rs order, called_back cb ecb (length xs) cs rs order w))"
  using assms by (intro map_async_delivered) (simp_all add: reports_each_once_def)

section \<open>Properties of hash\_word\<close>

lemma hash_word_result:
  "fst (hash_word w s) =
     (case encode_utf8 w of Inl e \<Rightarrow> Inl e | Inr bs \<Rightarrow> Inr (hexlify (SHA512 bs)))"
  by (simp add: hash_word_def sha512_def update_def hexdigest_def Let_def update_then_digest
      split: sum.split)

lemma hash_word_store:
  "take (length s) (snd (hash_word w s)) = s \<and> length (snd (hash_word w s)) = Suc (length s)"
  by (simp add: hash_word_def sha512_def update_def hexdigest_def Let_def split: sum.split)

lemma encode_from_ok:
  "\<not> list_ex is_surrogate cs \<Longrightarrow> encode_from s i cs = Inr (concat (map utf8_char cs))"
  by (induction cs arbitrary: i) simp_all

lemma encode_from_surrogate:
  "list_ex is_surrogate cs \<Longrightarrow> \<exists>e. encode_from s i cs = Inl e"
proof (induction cs arbitrary: i)
  case Nil
  then show ?case by simp
next
  case (Cons c cs)
  show ?case
  proof (cases "is_surrogate c")
    case True
    then show ?thesis by simp
  next
    case False
    with Cons.prems have "list_ex is_surrogate cs" by simp
    then obtain e where "encode_from s (i + 1) cs = Inl e"
      using Cons.IH by blast
    with False show ?thesis by simp
  qed
qed

lemma hash_word_raises_iff:
  "(\<exists>e. fst (hash_word w s) = Inl e) \<longleftrightarrow> list_ex is_surrogate w"
proof (cases "list_ex is_surrogate w")
  case True
  then obtain e where "encode_utf8 w = Inl e"
    using encode_from_surrogate [of w w 0] by (auto simp: encode_utf8_def)
  with True show ?thesis by (simp add: hash_word_result)
next
  case False
  then show ?thesis by (simp add: hash_word_result encode_utf8_def encode_from_ok)
qed

text \<open>
  C1. The hash that \<open>hash_word\<close> returns for a word is the hexadecimal rendering of the
  SHA-512 digest of the word's UTF-8 encoding: creating the hash object, feeding it the
  encoded word once and asking for the hex digest gives \<open>hexdigest(SHA512(utf8_encode(w)))\<close>,
  in whatever store the call runs. (Where the encoding raises, both sides raise the same
  exception; a word read from the file encodes.)
\<close>

theorem hash_word_is_sha512_hex: "fst (hash_word w s) = spec_hash w"
  by (simp add: hash_word_result spec_hash_def)

text \<open>
  C7. \<open>hash_word\<close> keeps no state across calls: whatever calls were made before, in
  whatever store, two calls with the same word return the same result, and a call leaves
  every object that was in the store as it was.
\<close>

theorem hash_word_deterministic:
  "fst (hash_word w (calls before s)) = fst (hash_word w (calls before' s'))
   \<and> take (length s) (snd (hash_word w s)) = s"
  by (simp add: hash_word_result hash_word_store)

text \<open>
  C8, as stated, fails: a Python string may hold a lone surrogate code point, and on
  \<open>'\ud800'\<close> the strict UTF-8 encoder raises, so \<open>hash_word\<close> raises.
\<close>

theorem hash_word_raises_on_surrogate:
  "fst (hash_word [0xD800] []) = Inl (UnicodeEncodeError [0xD800] 0 1)"
  by (simp add: hash_word_result encode_utf8_def is_surrogate_def)

text \<open>
  C8, amended. For every string that holds no surrogate code point, the empty string and
  non-ASCII text included, \<open>hash_word\<close> returns without raising, and its result is a
  string of exactly 128 lowercase hexadecimal characters.
\<close>

theorem hash_word_hex128:
  "\<not> list_ex is_surrogate w \<Longrightarrow>
   \<exists>h. fst (hash_word w s) = Inr h \<and> length h = 128 \<and> set h \<subseteq> set ''0123456789abcdef''"
  using hexlify_lower [of "SHA512 (concat (map utf8_char w))"]
  by (simp add: hash_word_result encode_utf8_def encode_from_ok length_hexlify length_SHA512)

theorem hash_word_hex128_witness:
  "\<not> list_ex is_surrogate [] \<and> \<not> list_ex is_surrogate [0xE9, 0x20AC, 0x1F600] \<and>
   (\<exists>h. fst (hash_word [] []) = Inr h \<and> length h = 128 \<and> set h \<subseteq> set ''0123456789abcdef'') \<and>
   (\<exists>h. fst (hash_word [0xE9, 0x20AC, 0x1F600] []) = Inr h \<and> length h = 128 \<and>
        set h \<subseteq> set ''0123456789abcdef'')"
proof -
  have a: "\<not> list_ex is_surrogate []" by simp
  have b: "\<not> list_ex is_surrogate [0xE9, 0x20AC, 0x1F600]" by (simp add: is_surrogate_def)
  show ?thesis
    using a b hash_word_hex128 [OF a, of "[]"] hash_word_hex128 [OF b, of "[]"] by blast
qed

section \<open>Mapping a function over a list through the pool\<close>

lemma mapstar_pure:
  assumes "\<And>x s. x \<in> set xs \<Longrightarrow> fst (func x s) = h x"
  shows "fst (mapstar func xs s) =
     (case find (\<lambda>x. isl (h x)) xs of
        None \<Rightarrow> Inr (map (\<lambda>x. projr (h x)) xs)
      | Some x \<Rightarrow> Inl (projl (h x)))"
  using assms
proof (induction xs arbitrary: s)
  case Nil
  show ?case by simp
next
  case (Cons x xs)
  obtain r s' where f: "func x s = (r, s')" by (cases "func x s")
  with Cons.prems [of x s] have r: "r = h x" by simp
  have IH: "fst (mapstar func xs s') =
     (case find (\<lambda>x. isl (h x)) xs of
        None \<Rightarrow> Inr (map (\<lambda>x. projr (h x)) xs)
      | Some x \<Rightarrow> Inl (projl (h x)))"
    using Cons.prems by (intro Cons.IH) simp
  show ?case
  proof (cases "h x")
    case (Inl e)
    with f r show ?thesis by simp
  next
    case (Inr y)
    with f r IH show ?thesis
      by (cases "mapstar func xs s'") (auto split: sum.splits option.splits)
  qed
qed

lemma mapstar_ok:
  assumes "\<And>x s. x \<in> set xs \<Longrightarrow> fst (func x s) = Inr (g x)"
  shows "fst (mapstar func xs s) = Inr (map g xs)"
  using assms
proof (induction xs arbitrary: s)
  case Nil
  show ?case by simp
next
  case (Cons x xs)
  obtain r s' where f: "func x s = (r, s')" by (cases "func x s")
  with Cons.prems [of x s] have r: "r = Inr (g x)" by simp
  have "fst (mapstar func xs s') = Inr (map g xs)"
    using Cons.prems by (intro Cons.IH) simp
  with f r show ?case
    by (cases "mapstar func xs s'") simp
qed

lemma set_comprehension_pure:
  assumes "\<And>x s. x \<in> set xs \<Longrightarrow> fst (func x s) = h x"
  shows "fst (set_comprehension func xs acc s) =
     (case find (\<lambda>x. isl (h x)) xs of
        None \<Rightarrow> Inr (acc \<union> (\<lambda>x. projr (h x)) ` set xs)
      | Some x \<Rightarrow> Inl (projl (h x)))"
  using assms
proof (induction xs arbitrary: s acc)
  case Nil
  show ?case by simp
next
  case (Cons x xs)
  obtain r s' where f: "func x s = (r, s')" by (cases "func x s")
  with Cons.prems [of x s] have r: "r = h x" by simp
  have IH: "fst (set_comprehension func xs acc' s') =
     (case find (\<lambda>x. isl (h x)) xs of
        None \<Rightarrow> Inr (acc' \<union> (\<lambda>x. projr (h x)) ` set xs)
      | Some x \<Rightarrow> Inl (projl (h x)))" for acc'
    using Cons.prems by (intro Cons.IH) simp
  show ?case
  proof (cases "h x")
    case (Inl e)
    with f r show ?thesis by simp
  next
    case (Inr y)
    with f r IH [of "insert y acc"] show ?thesis
      by (auto split: option.splits)
  qed
qed

lemma chunk_index_iff:
  assumes "0 < cs"
  shows "i < length (chunks_of cs xs) \<longleftrightarrow> i * cs < length xs"
proof
  assume "i < length (chunks_of cs xs)"
  then show "i * cs < length xs"
    using nth_chunks_of [of i cs xs] by simp
next
  assume l: "i * cs < length xs"
  then have le: "i \<le> length xs div cs"
    using assms by (simp add: less_eq_div_iff_mult_less_eq)
  show "i < length (chunks_of cs xs)"
  proof (cases "i = length xs div cs")
    case True
    have "length xs div cs * cs + length xs mod cs = length xs"
      by (rule div_mult_mod_eq)
    moreover from l True have "length xs div cs * cs < length xs"
      by simp
    ultimately have "length xs mod cs \<noteq> 0"
      by linarith
    with True assms show ?thesis by (simp add: length_chunks_of)
  next
    case False
    with le assms show ?thesis by (simp add: length_chunks_of)
  qed
qed

lemma reports_each_once_length:
  "reports_each_once n order \<Longrightarrow> length order = n"
  using distinct_card [of order] by (simp add: reports_each_once_def)

lemma filled_complete:
  assumes cs: "0 < cs" and ord: "set order = {..<length (get_tasks xs cs)}"
    and ok: "\<And>x s. x \<in> set xs \<Longrightarrow> fst (func x s) = Inr (g x)"
  shows "filled (length xs) cs (chunk_results func (get_tasks xs cs) wstate) order
         = map (\<lambda>x. Some (g x)) xs"
proof (rule nth_equalityI)
  show "length (filled (length xs) cs (chunk_results func (get_tasks xs cs) wstate) order)
        = length (map (\<lambda>x. Some (g x)) xs)"
    by (simp add: filled_def)
next
  fix j
  assume "j < length (filled (length xs) cs (chunk_results func (get_tasks xs cs) wstate) order)"
  then have j: "j < length xs" by (simp add: filled_def)
  define i where "i = j div cs"
  have icj: "i * cs \<le> j" and jlt: "j < i * cs + cs"
    using div_eq_chunk [OF cs, of j i] by (simp_all add: i_def)
  with j have "i * cs < length xs" by simp
  then have i: "i < length (get_tasks xs cs)"
    using chunk_index_iff [OF cs, of i xs] by (simp add: get_tasks_def)
  then have chunk: "get_tasks xs cs ! i = take cs (drop (i * cs) xs)"
    using nth_chunks_of [of i cs xs] by (simp add: get_tasks_def)
  have sub: "set (take cs (drop (i * cs) xs)) \<subseteq> set xs"
    by (meson set_drop_subset set_take_subset subset_trans)
  have "fst (mapstar func (take cs (drop (i * cs) xs)) (wstate i))
        = Inr (map g (take cs (drop (i * cs) xs)))"
    using ok sub by (intro mapstar_ok) auto
  then have res: "chunk_results func (get_tasks xs cs) wstate ! i
        = Inr (map g (take cs (drop (i * cs) xs)))"
    using i chunk by (simp add: nth_chunk_results)
  have m: "j mod cs = j - i * cs"
    unfolding i_def by (metis minus_div_mult_eq_mod mult.commute)
  have idx: "i * cs + (j - i * cs) = j"
    using icj by simp
  have "take cs (drop (i * cs) xs) ! (j - i * cs) = xs ! j"
    using jlt icj j idx by simp
  moreover have "j - i * cs < length (take cs (drop (i * cs) xs))"
    using jlt icj j by auto
  ultimately have "projr (chunk_results func (get_tasks xs cs) wstate ! i) ! (j mod cs) = g (xs ! j)"
    by (simp add: res m)
  moreover have "i \<in> set order"
    using i ord by simp
  ultimately show "filled (length xs) cs (chunk_results func (get_tasks xs cs) wstate) order ! j
        = map (\<lambda>x. Some (g x)) xs ! j"
    using j by (simp add: filled_def i_def)
qed

lemma default_chunksize_pos: "0 < len \<Longrightarrow> 0 < default_chunksize procs len"
proof -
  assume len: "0 < len"
  show ?thesis
  proof (cases "len mod (procs * 4) = 0")
    case True
    then have "procs * 4 dvd len" by auto
    then have "procs * 4 \<le> len" using len by (rule dvd_imp_le)
    moreover from True len have "0 < procs * 4" by (cases "procs * 4 = 0") auto
    ultimately have "0 < len div (procs * 4)" by (simp add: div_greater_zero_iff)
    then show ?thesis by (simp add: default_chunksize_def Let_def)
  next
    case False
    then show ?thesis by (simp add: default_chunksize_def Let_def)
  qed
qed

lemma pool_map_collected:
  assumes "reports_each_once (n_chunks procs (length xs) None) order"
  shows "pool_map procs func xs wstate order =
     (let cs = effective_chunksize procs (length xs) None;
          rs = chunk_results func (get_tasks xs cs) wstate
      in Some (case first_failure rs order of
                 None \<Rightarrow> Inr (filled (length xs) cs rs order)
               | Some e \<Rightarrow> Inl e))"
proof -
  have "length order = length (get_tasks xs (effective_chunksize procs (length xs) None))"
    using reports_each_once_length [OF assms] by (simp add: n_chunks_length)
  then show ?thesis
    by (simp add: pool_map_def map_async_collected [OF assms] get_def collected_def Let_def)
qed

lemma pool_map_ok:
  assumes ord: "reports_each_once (n_chunks procs (length xs) None) order"
    and ok: "\<And>x s. x \<in> set xs \<Longrightarrow> fst (func x s) = Inr (g x)"
  shows "pool_map procs func xs wstate order = Some (Inr (map (\<lambda>x. Some (g x)) xs))"
proof -
  define cs where "cs = effective_chunksize procs (length xs) None"
  define rs where "rs = chunk_results func (get_tasks xs cs) wstate"
  have n: "set order = {..<length (get_tasks xs cs)}"
    using ord by (simp add: reports_each_once_def n_chunks_length cs_def)
  have "\<not> isl (rs ! i)" if "i \<in> set order" for i
  proof -
    from that n have i: "i < length (get_tasks xs cs)" by simp
    then have "set (get_tasks xs cs ! i) \<subseteq> set xs"
      using nth_chunks_of [of i cs xs]
      by (simp add: get_tasks_def) (meson set_drop_subset set_take_subset subset_trans)
    then have "fst (mapstar func (get_tasks xs cs ! i) (wstate i)) = Inr (map g (get_tasks xs cs ! i))"
      using ok by (intro mapstar_ok) auto
    with i show ?thesis by (simp add: rs_def nth_chunk_results)
  qed
  then have none: "first_failure rs order = None"
    by (simp add: first_failure_def find_None_iff split: option.split)
  have "filled (length xs) cs rs order = map (\<lambda>x. Some (g x)) xs"
  proof (cases "xs = []")
    case True
    then show ?thesis by (simp add: filled_def)
  next
    case False
    then have "0 < cs"
      by (simp add: cs_def effective_chunksize_def default_chunksize_pos)
    then show ?thesis
      unfolding rs_def using n ok by (rule filled_complete)
  qed
  with none show ?thesis
    by (simp add: pool_map_collected [OF ord] Let_def cs_def [symmetric] rs_def [symmetric])
qed

lemma pool_map_fails:
  assumes ord: "reports_each_once (n_chunks procs (length xs) None) order"
    and pure: "\<And>x s. x \<in> set xs \<Longrightarrow> fst (func x s) = h x"
    and bad: "x \<in> set xs" "isl (h x)"
  shows "\<exists>e. pool_map procs func xs wstate order = Some (Inl e)"
proof -
  define cs where "cs = effective_chunksize procs (length xs) None"
  define rs where "rs = chunk_results func (get_tasks xs cs) wstate"
  from bad have "0 < length xs" by (cases xs) auto
  then have cs: "0 < cs"
    by (simp add: cs_def effective_chunksize_def default_chunksize_pos)
  have n: "set order = {..<length (get_tasks xs cs)}"
    using ord by (simp add: reports_each_once_def n_chunks_length cs_def)
  from bad cs have "x \<in> set (concat (get_tasks xs cs))"
    by (simp only: get_tasks_def concat_chunks_of)
  then obtain c where c: "c \<in> set (get_tasks xs cs)" and xc: "x \<in> set c"
    by auto
  then obtain i where i: "i < length (get_tasks xs cs)" and ci: "get_tasks xs cs ! i = c"
    by (auto simp: in_set_conv_nth)
  have sub: "set c \<subseteq> set xs"
    using i ci nth_chunks_of [of i cs xs]
    by (simp add: get_tasks_def) (metis set_drop_subset set_take_subset subset_trans)
  have "fst (mapstar func c (wstate i)) =
     (case find (\<lambda>x. isl (h x)) c of
        None \<Rightarrow> Inr (map (\<lambda>x. projr (h x)) c)
      | Some x \<Rightarrow> Inl (projl (h x)))"
    using pure sub by (intro mapstar_pure) auto
  moreover have "find (\<lambda>x. isl (h x)) c \<noteq> None"
    using xc bad by (auto simp: find_None_iff)
  ultimately have "isl (fst (mapstar func c (wstate i)))"
    by (auto split: option.splits)
  with i ci have "isl (rs ! i)"
    by (simp add: rs_def nth_chunk_results)
  moreover from i n have "i \<in> set order" by simp
  ultimately have "find (\<lambda>i. isl (rs ! i)) order \<noteq> None"
    by (auto simp: find_None_iff)
  then obtain e where "first_failure rs order = Some e"
    by (auto simp: first_failure_def split: option.splits)
  then show ?thesis
    by (simp add: pool_map_collected [OF ord] Let_def cs_def [symmetric] rs_def [symmetric])
qed

lemma hash_word_pure: "fst (hash_word w s) = spec_hash w"
  by (simp add: hash_word_result spec_hash_def)

lemma known_words_serial_eq:
  "known_words_serial words s =
     (case find (\<lambda>w. isl (spec_hash w)) words of
        None \<Rightarrow> Inr ((\<lambda>w. projr (spec_hash w)) ` set words)
      | Some w \<Rightarrow> Inl (projl (spec_hash w)))"
proof -
  have "known_words_serial words s =
     (case find (\<lambda>w. isl (spec_hash w)) words of
        None \<Rightarrow> Inr ({} \<union> (\<lambda>w. projr (spec_hash w)) ` set words)
      | Some w \<Rightarrow> Inl (projl (spec_hash w)))"
    unfolding known_words_serial_def by (rule set_comprehension_pure) (rule hash_word_pure)
  then show ?thesis by (simp split: option.split)
qed

text \<open>
  C3. The parallel computation refines the serial one. Whenever every chunk of the pool's
  map reports exactly once, in any order and whatever state the workers are in: if the
  serial comprehension yields a set of hashes, \<open>set(p.map(hash_word, words))\<close> is that
  same set (each hash sitting in its slot of the result list); if the serial
  comprehension raises, so does the pool's map.
\<close>

theorem parallel_refines_serial:
  assumes "reports_each_once (n_chunks processes (length words) None) order"
  shows "case known_words_serial words s of
           Inr known \<Rightarrow> known_words_parallel words wstate order = Some (Inr (Some ` known))
         | Inl e \<Rightarrow> (\<exists>e'. known_words_parallel words wstate order = Some (Inl e'))"
proof -
  note serial = known_words_serial_eq [of words s]
  show ?thesis
  proof (cases "find (\<lambda>w. isl (spec_hash w)) words")
    case None
    then have "fst (hash_word w s) = Inr (projr (spec_hash w))" if "w \<in> set words" for w s
      using that by (auto simp: find_None_iff hash_word_pure)
    then have "pool_map processes hash_word words wstate order
          = Some (Inr (map (\<lambda>w. Some (projr (spec_hash w))) words))"
      using assms by (intro pool_map_ok) auto
    with None serial show ?thesis
      by (simp add: known_words_parallel_def image_image)
  next
    case (Some w)
    then have "w \<in> set words" "isl (spec_hash w)"
      by (auto simp: find_Some_iff)
    with assms obtain e where "pool_map processes hash_word words wstate order = Some (Inl e)"
      using pool_map_fails [of processes words order hash_word spec_hash w wstate]
      by (auto simp: hash_word_pure)
    with Some serial show ?thesis
      by (simp add: known_words_parallel_def)
  qed
qed

theorem parallel_refines_serial_witness:
  "reports_each_once (n_chunks processes 2 None) [1, 0] \<and>
   known_words_serial [[97], [98, 10]] [] =
     Inr {hexlify (SHA512 [97]), hexlify (SHA512 [98, 10])} \<and>
   known_words_parallel [[97], [98, 10]] (\<lambda>i. []) [1, 0] =
     Some (Inr {Some (hexlify (SHA512 [97])), Some (hexlify (SHA512 [98, 10]))})"
proof -
  have ord: "reports_each_once (n_chunks processes (length [[97], [98, 10 :: nat]]) None) [1, 0]"
    by (auto simp: reports_each_once_def n_chunks_def effective_chunksize_def
        default_chunksize_def processes_def Let_def)
  have ser: "known_words_serial [[97], [98, 10]] [] =
      Inr {hexlify (SHA512 [97]), hexlify (SHA512 [98, 10])}"
    by (simp add: known_words_serial_eq spec_hash_def encode_utf8_def is_surrogate_def
        utf8_char_def)
  from parallel_refines_serial [OF ord, where s = "[]" and wstate = "\<lambda>i. []"] ser ord
  show ?thesis
    by (simp add: numeral_2_eq_2)
qed

section \<open>Properties of reading the word file\<close>

lemma readline_append: "fst (readline f) @ snd (readline f) = f"
  by (induction f) (simp_all add: split_beta)

lemma readline_nonempty: "f \<noteq> [] \<Longrightarrow> fst (readline f) \<noteq> []"
  by (cases f) (simp_all add: split_beta)

lemma readline_no_inner_LF: "LF \<notin> set (butlast (fst (readline f)))"
  by (induction f) (simp_all add: split_beta)

lemma readline_terminated:
  "snd (readline f) \<noteq> [] \<Longrightarrow> last (fst (readline f)) = LF"
proof (induction f)
  case Nil
  then show ?case by simp
next
  case (Cons c cs)
  show ?case
  proof (cases "c = LF")
    case True
    then show ?thesis by simp
  next
    case False
    with Cons.prems have r: "snd (readline cs) \<noteq> []"
      by (simp add: split_beta)
    then have "cs \<noteq> []" by auto
    then have "fst (readline cs) \<noteq> []" by (rule readline_nonempty)
    with False Cons.IH [OF r] show ?thesis
      by (simp add: split_beta)
  qed
qed

lemma concat_readlines: "concat (readlines f) = f"
proof (induction f rule: readlines.induct)
  case (1 f)
  show ?case
  proof (cases "f = []")
    case True
    then show ?thesis by (simp add: readlines.simps [of "[]"])
  next
    case False
    with "1.IH" show ?thesis
      by (simp add: readlines.simps [of f] readline_append)
  qed
qed

lemma readlines_line:
  "l \<in> set (readlines f) \<Longrightarrow> l \<noteq> [] \<and> LF \<notin> set (butlast l)"
proof (induction f rule: readlines.induct)
  case (1 f)
  show ?case
  proof (cases "f = []")
    case True
    with "1.prems" show ?thesis by (simp add: readlines.simps [of "[]"])
  next
    case False
    from "1.prems" False
    consider "l = fst (readline f)" | "l \<in> set (readlines (snd (readline f)))"
      by (auto simp: readlines.simps [of f])
    then show ?thesis
    proof cases
      case 1
      with False show ?thesis
        by (simp add: readline_nonempty readline_no_inner_LF)
    next
      case 2
      with "1.IH" False show ?thesis by simp
    qed
  qed
qed

lemma readlines_terminated:
  "l \<in> set (butlast (readlines f)) \<Longrightarrow> last l = LF"
proof (induction f rule: readlines.induct)
  case (1 f)
  show ?case
  proof (cases "f = []")
    case True
    with "1.prems" show ?thesis by (simp add: readlines.simps [of "[]"])
  next
    case False
    show ?thesis
    proof (cases "snd (readline f) = []")
      case True
      with "1.prems" False show ?thesis
        by (simp add: readlines.simps [of f] readlines.simps [of "[]"])
    next
      case rest: False
      then have "readlines (snd (readline f)) \<noteq> []"
        by (simp add: readlines.simps [of "snd (readline f)"])
      with "1.prems" False
      consider "l = fst (readline f)" | "l \<in> set (butlast (readlines (snd (readline f))))"
        by (auto simp: readlines.simps [of f])
      then show ?thesis
      proof cases
        case 1
        with rest show ?thesis by (simp add: readline_terminated)
      next
        case 2
        with "1.IH" False show ?thesis by simp
      qed
    qed
  qed
qed

lemma set_comprehension_ok:
  assumes "\<And>x s. x \<in> set xs \<Longrightarrow> fst (func x s) = Inr (g x)"
  shows "fst (set_comprehension func xs acc s) = Inr (acc \<union> g ` set xs)"
  using assms
proof (induction xs arbitrary: s acc)
  case Nil
  show ?case by simp
next
  case (Cons x xs)
  obtain r s' where f: "func x s = (r, s')" by (cases "func x s")
  with Cons.prems [of x s] have r: "r = Inr (g x)" by simp
  have "fst (set_comprehension func xs (insert (g x) acc) s') = Inr (insert (g x) acc \<union> g ` set xs)"
    using Cons.prems by (intro Cons.IH) simp
  with f r show ?case by simp
qed

text \<open>
  C4. The word file is consumed as it is read. The lines that \<open>readlines\<close> returns,
  put end to end, are the text of the file (with universal newlines); every line is
  non-empty, keeps its terminating newline (only the last line of the file may lack one)
  and holds no other newline. The pool's map and the serial comprehension hand each of
  these lines, unchanged and in full, to the function they are given: whatever that
  function returns for a line, the results are its values at the lines themselves.
\<close>

theorem lines_handed_unchanged:
  assumes ord: "reports_each_once (n_chunks processes (length (words_of_file content)) None) order"
    and echo: "\<And>l s. l \<in> set (words_of_file content) \<Longrightarrow> fst (func l s) = Inr (g l)"
  shows "pool_map processes func (words_of_file content) wstate order
           = Some (Inr (map (\<lambda>l. Some (g l)) (words_of_file content))) \<and>
         fst (set_comprehension func (words_of_file content) {} s)
           = Inr (g ` set (words_of_file content)) \<and>
         concat (words_of_file content) = translate_newlines content \<and>
         (\<forall>l \<in> set (words_of_file content). l \<noteq> [] \<and> LF \<notin> set (butlast l)) \<and>
         (\<forall>l \<in> set (butlast (words_of_file content)). last l = LF)"
proof -
  have "pool_map processes func (words_of_file content) wstate order
           = Some (Inr (map (\<lambda>l. Some (g l)) (words_of_file content)))"
    using ord echo by (rule pool_map_ok)
  moreover have "fst (set_comprehension func (words_of_file content) {} s)
           = Inr (g ` set (words_of_file content))"
    using set_comprehension_ok [of "words_of_file content" func g "{}" s] echo by simp
  moreover have "concat (words_of_file content) = translate_newlines content"
    by (simp add: words_of_file_def concat_readlines)
  moreover have "\<forall>l \<in> set (words_of_file content). l \<noteq> [] \<and> LF \<notin> set (butlast l)"
    using readlines_line by (auto simp: words_of_file_def)
  moreover have "\<forall>l \<in> set (butlast (words_of_file content)). last l = LF"
    using readlines_terminated by (auto simp: words_of_file_def)
  ultimately show ?thesis by blast
qed

lemma example_words: "words_of_file [97, 98, 13, 10, 99, 100] = [[97, 98, 10], [99, 100]]"
  by code_simp

theorem lines_handed_unchanged_witness:
  "words_of_file [97, 98, 13, 10, 99, 100] = [[97, 98, 10], [99, 100]] \<and>
   reports_each_once (n_chunks processes 2 None) [1, 0] \<and>
   pool_map processes hash_word (words_of_file [97, 98, 13, 10, 99, 100]) (\<lambda>i. []) [1, 0]
     = Some (Inr [Some (hexlify (SHA512 [97, 98, 10])), Some (hexlify (SHA512 [99, 100]))]) \<and>
   fst (set_comprehension hash_word (words_of_file [97, 98, 13, 10, 99, 100]) {} [])
     = Inr {hexlify (SHA512 [97, 98, 10]), hexlify (SHA512 [99, 100])} \<and>
   concat (words_of_file [97, 98, 13, 10, 99, 100]) = [97, 98, 10, 99, 100]"
proof -
  let ?g = "\<lambda>l. hexlify (SHA512 (concat (map utf8_char l)))"
  have ord2: "reports_each_once (n_chunks processes 2 None) [1, 0]"
    by (auto simp: reports_each_once_def n_chunks_def effective_chunksize_def
        default_chunksize_def processes_def Let_def)
  then have ord: "reports_each_once
      (n_chunks processes (length (words_of_file [97, 98, 13, 10, 99, 100])) None) [1, 0]"
    by (simp add: example_words numeral_2_eq_2)
  have echo: "fst (hash_word l s) = Inr (?g l)"
    if "l \<in> set (words_of_file [97, 98, 13, 10, 99, 100])" for l s
    using that
    by (auto simp: example_words hash_word_result encode_utf8_def is_surrogate_def)
  have tr: "translate_newlines [97, 98, 13, 10, 99, 100] = [97, 98, 10, 99, 100]"
    by (simp add: CR_def LF_def)
  have main:
    "pool_map processes hash_word (words_of_file [97, 98, 13, 10, 99, 100]) (\<lambda>i. []) [1, 0]
       = Some (Inr (map (\<lambda>l. Some (?g l)) (words_of_file [97, 98, 13, 10, 99, 100]))) \<and>
     fst (set_comprehension hash_word (words_of_file [97, 98, 13, 10, 99, 100]) {} [])
       = Inr (?g ` set (words_of_file [97, 98, 13, 10, 99, 100])) \<and>
     concat (words_of_file [97, 98, 13, 10, 99, 100])
       = translate_newlines [97, 98, 13, 10, 99, 100] \<and>
     (\<forall>l \<in> set (words_of_file [97, 98, 13, 10, 99, 100]). l \<noteq> [] \<and> LF \<notin> set (butlast l)) \<and>
     (\<forall>l \<in> set (butlast (words_of_file [97, 98, 13, 10, 99, 100])). last l = LF)"
    by (rule lines_handed_unchanged [where func = hash_word and g = ?g, OF ord]) (rule echo)
  have gs: "map (\<lambda>l. Some (?g l)) [[97, 98, 10], [99, 100]]
        = [Some (hexlify (SHA512 [97, 98, 10])), Some (hexlify (SHA512 [99, 100]))]"
    and gi: "?g ` set [[97, 98, 10], [99, 100]]
        = {hexlify (SHA512 [97, 98, 10]), hexlify (SHA512 [99, 100])}"
    by (simp_all add: utf8_char_def)
  from main [THEN conjunct1]
  have "pool_map processes hash_word (words_of_file [97, 98, 13, 10, 99, 100]) (\<lambda>i. []) [1, 0]
       = Some (Inr [Some (hexlify (SHA512 [97, 98, 10])), Some (hexlify (SHA512 [99, 100]))])"
    by (simp only: example_words gs)
  moreover from main [THEN conjunct2, THEN conjunct1]
  have "fst (set_comprehension hash_word (words_of_file [97, 98, 13, 10, 99, 100]) {} [])
       = Inr {hexlify (SHA512 [97, 98, 10]), hexlify (SHA512 [99, 100])}"
    by (simp only: example_words gi)
  moreover from main [THEN conjunct2, THEN conjunct2, THEN conjunct1]
  have "concat (words_of_file [97, 98, 13, 10, 99, 100]) = [97, 98, 10, 99, 100]"
    by (simp only: tr)
  ultimately show ?thesis
    using ord2 example_words by blast
qed

section \<open>Properties of task\<close>

lemma random_range: "0 \<le> fst (random p) \<and> fst (random p) < 1"
proof -
  define a where "a = unat (drop_bit 5 (genrand p (used p)))"
  define b where "b = unat (drop_bit 6 (genrand p (used p + 1)))"
  have "unat (genrand p (used p)) < 2 ^ LENGTH(32)"
    by (rule unsigned_less)
  then have a: "a < 134217728"
    by (simp add: a_def drop_bit_eq_div unat_div)
  have "unat (genrand p (used p + 1)) < 2 ^ LENGTH(32)"
    by (rule unsigned_less)
  then have b: "b < 67108864"
    by (simp add: b_def drop_bit_eq_div unat_div)
  from a b have "a * 67108864 + b < 9007199254740992"
    by simp
  then have "(of_nat (a * 67108864 + b) :: rat) < of_nat 9007199254740992"
    by (simp only: of_nat_less_iff)
  then have "(of_nat (a * 67108864 + b) :: rat) / 9007199254740992 < 1"
    by simp
  moreover have "fst (random p) = of_nat (a * 67108864 + b) / 9007199254740992"
    unfolding a_def b_def by (simp only: random_def Let_def fst_conv)
  ultimately show ?thesis
    by simp
qed


lemma task_raises_iff: "(\<exists>e. fst (task v p) = Inl e) \<longleftrightarrow> v = 13 \<or> v = 42"
  using random_range [of p]
  by (auto simp: task_def sleep_def split_beta Let_def)

lemma task_sentinel:
  "v = 13 \<or> v = 42 \<Longrightarrow> task v p = (Inl (ValueError (str_int v @ '' is an impossible value!'')), p)"
  by (auto simp: task_def)



section \<open>Properties of the retrieval request\<close>

text \<open>
  C5. A retrieval request that is submitted carries the date range
  \<open>firstdate/to/lastdate\<close>, the parameter code that \<open>vars\<close> gives for the chosen variable
  name, and the output format \<open>netcdf\<close>. (For a name that is not in \<open>vars\<close> the lookup
  raises and no request is submitted.)
\<close>

theorem request_schema:
  "retrieve_request thisvar firstdate lastdate = Inr rq \<Longrightarrow>
   map_of (body rq) ''date'' = Some (firstdate @ ''/to/'' @ lastdate) \<and>
   (\<exists>code. getitem vars thisvar = Inr code \<and> map_of (body rq) ''param'' = Some (str_int code)) \<and>
   map_of (body rq) ''format'' = Some ''netcdf''"
  by (auto simp: retrieve_request_def split: sum.splits)

lemma submitted_request_eq:
  "submitted_request =
     Inr \<lparr>dataset = ''reanalysis-era5-complete'',
          body = [(''class'', ''ea''), (''date'', ''2023-01-01/to/2023-01-31''),
                  (''expver'', ''1''), (''levelist'', ''137''), (''levtype'', ''ml''),
                  (''param'', ''130''), (''step'', ''0''), (''stream'', ''oper''),
                  (''time'', ''09:00:00/21:00:00''), (''type'', ''4v''), (''format'', ''netcdf'')],
          target = ''era5_temperature_2023-01-01_2023-01-31.nc''\<rparr>"
proof -
  have "str_int 130 = ''130''" by code_simp
  then show ?thesis
    by (simp add: submitted_request_def retrieve_request_def getitem_def vars_def)
qed

theorem request_schema_witness:
  "(\<exists>rq. submitted_request = Inr rq \<and>
     map_of (body rq) ''date'' = Some ''2023-01-01/to/2023-01-31'' \<and>
     getitem vars ''temperature'' = Inr 130 \<and>
     map_of (body rq) ''param'' = Some ''130'' \<and>
     map_of (body rq) ''format'' = Some ''netcdf'')"
proof -
  obtain rq where rq: "retrieve_request ''temperature'' ''2023-01-01'' ''2023-01-31'' = Inr rq"
    using submitted_request_eq by (simp add: submitted_request_def)
  have g: "getitem vars ''temperature'' = Inr 130"
    by (simp add: getitem_def vars_def)
  have s: "str_int 130 = ''130''" by code_simp
  from request_schema [OF rq] g s rq show ?thesis
    by (simp add: submitted_request_def)
qed

text \<open>
  C10. \<open>vars\<close> is not injective: the three distinct names \<open>specific humidity\<close>,
  \<open>surface pressure\<close> and \<open>10-m wind speed\<close> all map to the code 111, and a request for
  any of them carries the parameter \<open>111\<close>.
\<close>

theorem vars_not_injective:
  "getitem vars ''specific humidity'' = Inr 111 \<and>
   getitem vars ''surface pressure'' = Inr 111 \<and>
   getitem vars ''10-m wind speed'' = Inr 111 \<and>
   distinct [''specific humidity'', ''surface pressure'', ''10-m wind speed''] \<and>
   \<not> inj_on (getitem vars) (set (map fst vars)) \<and>
   map_sum id (\<lambda>rq. map_of (body rq) ''param'')
     (retrieve_request ''specific humidity'' firstdate lastdate) = Inr (Some ''111'') \<and>
   map_sum id (\<lambda>rq. map_of (body rq) ''param'')
     (retrieve_request ''surface pressure'' firstdate lastdate) = Inr (Some ''111'') \<and>
   map_sum id (\<lambda>rq. map_of (body rq) ''param'')
     (retrieve_request ''10-m wind speed'' firstdate lastdate) = Inr (Some ''111'')"
proof -
  have a: "getitem vars ''specific humidity'' = Inr 111"
    and b: "getitem vars ''surface pressure'' = Inr 111"
    and c: "getitem vars ''10-m wind speed'' = Inr 111"
    by (simp_all add: getitem_def vars_def)
  have s: "str_int 111 = ''111''"
    by code_simp
  have "\<not> inj_on (getitem vars) (set (map fst vars))"
  proof
    assume inj: "inj_on (getitem vars) (set (map fst vars))"
    have m1: "''specific humidity'' \<in> set (map fst vars)"
      and m2: "''surface pressure'' \<in> set (map fst vars)"
      by (simp_all add: vars_def)
    have "getitem vars ''specific humidity'' = getitem vars ''surface pressure''"
      using a b by simp
    from inj_onD [OF inj this m1 m2] show False by simp
  qed
  then show ?thesis
    using a b c s by (simp add: retrieve_request_def)
qed

section \<open>Properties of the asynchronous example\<close>

lemma task_result:
  "fst (task v p) = (if sentinel v then Inl (impossible v) else Inr ())"
  using random_range [of p]
  by (simp add: task_def sleep_def split_beta Let_def sentinel_def impossible_def)

lemma mapstar_task:
  "fst (mapstar task c p) =
     (case find sentinel c of None \<Rightarrow> Inr (map (\<lambda>v. ()) c) | Some v \<Rightarrow> Inl (impossible v))"
proof -
  let ?h = "\<lambda>v. if sentinel v then Inl (impossible v) else Inr ()"
  have "fst (mapstar task c p) =
     (case find (\<lambda>x. isl (?h x)) c of
        None \<Rightarrow> Inr (map (\<lambda>x. projr (?h x)) c)
      | Some x \<Rightarrow> Inl (projl (?h x)))"
    by (rule mapstar_pure) (rule task_result)
  moreover have "(\<lambda>x. isl (?h x)) = sentinel"
    by (auto simp: fun_eq_iff)
  ultimately have eq: "fst (mapstar task c p) =
     (case find sentinel c of
        None \<Rightarrow> Inr (map (\<lambda>x. projr (?h x)) c)
      | Some x \<Rightarrow> Inl (projl (?h x)))"
    by (simp only:)
  show ?thesis
  proof (cases "find sentinel c")
    case None
    with eq show ?thesis by simp
  next
    case (Some v)
    then have "sentinel v"
      by (auto simp: find_Some_iff)
    with eq Some show ?thesis by simp
  qed
qed

lemma find_list_ex: "find P xs \<noteq> None \<longleftrightarrow> list_ex P xs"
  by (auto simp: find_None_iff list_ex_iff)

lemma map_async_error_callback:
  assumes "reports_each_once (n_chunks procs (length xs) chunksize) order"
  shows "snd (map_async procs func xs chunksize None (Some ecb) wstate order w) =
     (case first_failure
             (chunk_results func
                (get_tasks xs (effective_chunksize procs (length xs) chunksize)) wstate) order of
        None \<Rightarrow> w
      | Some e \<Rightarrow> ecb e w)"
proof -
  define cs where "cs = effective_chunksize procs (length xs) chunksize"
  define rs where "rs = chunk_results func (get_tasks xs cs) wstate"
  have len: "length order = length rs"
    using reports_each_once_length [OF assms] by (simp add: n_chunks_length rs_def cs_def)
  have "snd (map_async procs func xs chunksize None (Some ecb) wstate order w)
        = called_back None (Some ecb) (length xs) cs rs order w"
    by (simp add: map_async_collected [OF assms] Let_def rs_def cs_def)
  also have "\<dots> = (case first_failure rs order of None \<Rightarrow> w | Some e \<Rightarrow> ecb e w)"
  proof (cases "order = []")
    case True
    then show ?thesis by (simp add: called_back_def first_failure_def)
  next
    case False
    with len show ?thesis by (simp add: called_back_def split: option.split)
  qed
  finally show ?thesis
    by (simp add: rs_def cs_def)
qed

lemma get_tasks_effective:
  "0 < cs \<Longrightarrow> get_tasks xs (effective_chunksize procs (length xs) (Some cs)) = get_tasks xs cs"
  by (cases xs) (simp_all add: effective_chunksize_def get_tasks_def chunks_of.simps [of _ "[]"])

lemma first_failure_task:
  assumes "set order \<subseteq> {..<length (get_tasks xs cs)}"
  shows "first_failure (chunk_results task (get_tasks xs cs) wstate) order
         = reported_error xs cs order"
proof -
  let ?rs = "chunk_results task (get_tasks xs cs) wstate"
  have r: "?rs ! i = (case find sentinel (get_tasks xs cs ! i) of
                        None \<Rightarrow> Inr (map (\<lambda>v. ()) (get_tasks xs cs ! i))
                      | Some v \<Rightarrow> Inl (impossible v))"
    if "i \<in> set order" for i
    using that assms by (auto simp: nth_chunk_results mapstar_task)
  have isl: "isl (?rs ! i) \<longleftrightarrow> list_ex sentinel (get_tasks xs cs ! i)" if "i \<in> set order" for i
    using r [OF that] find_list_ex [of sentinel "get_tasks xs cs ! i"]
    by (auto split: option.splits)
  have f: "find (\<lambda>i. isl (?rs ! i)) order
         = find (\<lambda>i. list_ex sentinel (get_tasks xs cs ! i)) order"
    by (rule find_cong) (simp_all add: isl)
  show ?thesis
  proof (cases "find (\<lambda>i. list_ex sentinel (get_tasks xs cs ! i)) order")
    case None
    with f show ?thesis
      by (simp add: first_failure_def reported_error_def)
  next
    case (Some i)
    then have i: "i \<in> set order" and ex: "list_ex sentinel (get_tasks xs cs ! i)"
      by (auto simp: find_Some_iff)
    from ex obtain v where v: "find sentinel (get_tasks xs cs ! i) = Some v"
      using find_list_ex [of sentinel "get_tasks xs cs ! i"] by auto
    with r [OF i] have "?rs ! i = Inl (impossible v)" by simp
    with Some f v show ?thesis
      by (simp add: first_failure_def reported_error_def)
  qed
qed

lemma async_printed:
  assumes cs: "0 < cs"
    and ord: "reports_each_once (n_chunks procs (length xs) (Some cs)) order"
  shows "snd (map_async procs task xs (Some cs) None (Some galactic_error) wstate order out)
         = (case reported_error xs cs order of None \<Rightarrow> out | Some e \<Rightarrow> galactic_error e out)"
proof -
  have "set order \<subseteq> {..<length (get_tasks xs cs)}"
    using ord cs by (simp add: reports_each_once_def n_chunks_length get_tasks_effective)
  then show ?thesis
    by (simp add: map_async_error_callback [OF ord] get_tasks_effective [OF cs]
        first_failure_task)
qed






lemma range60_chunks:
  "get_tasks (range_py 60) 16 =
     [[0, 1, 2, 3, 4, 5, 6, 7, 8, 9, 10, 11, 12, 13, 14, 15],
      [16, 17, 18, 19, 20, 21, 22, 23, 24, 25, 26, 27, 28, 29, 30, 31],
      [32, 33, 34, 35, 36, 37, 38, 39, 40, 41, 42, 43, 44, 45, 46, 47],
      [48, 49, 50, 51, 52, 53, 54, 55, 56, 57, 58, 59]]"
  by code_simp

lemma n_chunks_async: "n_chunks 8 (length (range_py 60)) (Some 16) = 4"
  by (simp add: n_chunks_def effective_chunksize_def range_py_def Let_def)

lemma chunk_sentinels:
  "find sentinel (get_tasks (range_py 60) 16 ! 0) = Some 13"
  "find sentinel (get_tasks (range_py 60) 16 ! 1) = None"
  "find sentinel (get_tasks (range_py 60) 16 ! 2) = Some 42"
  "find sentinel (get_tasks (range_py 60) 16 ! 3) = None"
  by (simp_all add: range60_chunks sentinel_def)

lemma printed_lines:
  "galactic_error (impossible 13) [] = [''***13 is an impossible value!***'' @ [CHR 0x0A]]"
  "galactic_error (impossible 42) [] = [''***42 is an impossible value!***'' @ [CHR 0x0A]]"
proof -
  have "str_int 13 = ''13''" "str_int 42 = ''42''"
    by code_simp+
  then show
    "galactic_error (impossible 13) [] = [''***13 is an impossible value!***'' @ [CHR 0x0A]]"
    "galactic_error (impossible 42) [] = [''***42 is an impossible value!***'' @ [CHR 0x0A]]"
    by (simp_all add: galactic_error_def impossible_def str_error_def)
qed

lemma async_example_printed:
  assumes "reports_each_once (n_chunks 8 (length (range_py 60)) (Some 16)) order"
  shows "snd (async_example wstate order)
         = (case reported_error (range_py 60) 16 order of
              None \<Rightarrow> []
            | Some e \<Rightarrow> galactic_error e [])"
  unfolding async_example_def using assms by (intro async_printed) simp_all

lemma reported_error_async:
  assumes "reports_each_once (n_chunks 8 (length (range_py 60)) (Some 16)) order"
  shows "reported_error (range_py 60) 16 order = Some (impossible 13) \<or>
         reported_error (range_py 60) 16 order = Some (impossible 42)"
proof -
  let ?P = "\<lambda>i. list_ex sentinel (get_tasks (range_py 60) 16 ! i)"
  from assms have d: "set order = {..<4}"
    by (simp add: reports_each_once_def n_chunks_async)
  have P: "?P i \<longleftrightarrow> find sentinel (get_tasks (range_py 60) 16 ! i) \<noteq> None" for i
    using find_list_ex [of sentinel "get_tasks (range_py 60) 16 ! i"] by simp
  have "0 \<in> set order" using d by simp
  moreover have "?P 0" by (simp add: P chunk_sentinels)
  ultimately have "find ?P order \<noteq> None"
    by (auto simp: find_None_iff)
  then obtain i where f: "find ?P order = Some i" by auto
  then have "i \<in> set order" and Pi: "?P i"
    by (auto simp: find_Some_iff)
  with d have "i < 4" by simp
  then consider "i = 0" | "i = 1" | "i = 2" | "i = 3" by linarith
  then show ?thesis
  proof cases
    case 1
    with f show ?thesis by (simp add: reported_error_def chunk_sentinels)
  next
    case 2
    then show ?thesis using Pi P [of 1] chunk_sentinels(2) by blast
  next
    case 3
    with f show ?thesis by (simp add: reported_error_def chunk_sentinels)
  next
    case 4
    then show ?thesis using Pi P [of 3] chunk_sentinels(4) by blast
  qed
qed

text \<open>
  C9. In the asynchronous example the error branch is reached: 13 and 42 both lie in
  \<open>range(60)\<close>, \<open>task\<close> raises on each, and in every run in which the four chunks report
  the error callback fires, printing the line of one of the two errors.
\<close>

theorem error_branch_reachable:
  assumes "reports_each_once (n_chunks 8 (length (range_py 60)) (Some 16)) order"
  shows "13 \<in> set (range_py 60) \<and> 42 \<in> set (range_py 60) \<and>
         (\<exists>e. fst (task 13 p) = Inl e) \<and> (\<exists>e. fst (task 42 p) = Inl e) \<and>
         (snd (async_example wstate order) = [''***13 is an impossible value!***'' @ [CHR 0x0A]] \<or>
          snd (async_example wstate order) = [''***42 is an impossible value!***'' @ [CHR 0x0A]])"
proof -
  have "13 \<in> set (range_py 60)" "42 \<in> set (range_py 60)"
    by (simp_all add: range_py_def)
  moreover have "\<exists>e. fst (task 13 p) = Inl e" "\<exists>e. fst (task 42 p) = Inl e"
    by (simp_all add: task_raises_iff)
  moreover have "snd (async_example wstate order) = [''***13 is an impossible value!***'' @ [CHR 0x0A]] \<or>
          snd (async_example wstate order) = [''***42 is an impossible value!***'' @ [CHR 0x0A]]"
    using reported_error_async [OF assms] async_example_printed [OF assms, of wstate] printed_lines
    by auto
  ultimately show ?thesis by blast
qed

text \<open>
  The run used below: every worker is in the state \<open>example_process\<close>, where each sleep
  lasts half a second, so the chunks finish after 5, 6, 6.5 and 8 seconds and report in
  the order 2, 3, 0, 1.
\<close>

lemma example_order:
  "reports_each_once (n_chunks 8 (length (range_py 60)) (Some 16)) [2, 3, 0, 1]"
  by (auto simp: reports_each_once_def n_chunks_async)

lemma example_reported:
  "reported_error (range_py 60) 16 [2, 3, 0, 1] = Some (impossible 42)"
  by (simp add: reported_error_def find_list_ex [symmetric] chunk_sentinels)

lemma example_printed:
  "snd (async_example (\<lambda>i. example_process) [2, 3, 0, 1])
     = [''***42 is an impossible value!***'' @ [CHR 0x0A]]"
  by (simp only: async_example_printed [OF example_order] example_reported printed_lines
      option.case)


theorem error_branch_reachable_witness:
  "reports_each_once (n_chunks 8 (length (range_py 60)) (Some 16)) [2, 3, 0, 1] \<and>
   13 \<in> set (range_py 60) \<and> 42 \<in> set (range_py 60) \<and>
   (\<exists>e. fst (task 13 example_process) = Inl e) \<and>
   (\<exists>e. fst (task 42 example_process) = Inl e) \<and>
   snd (async_example (\<lambda>i. example_process) [2, 3, 0, 1])
     = [''***42 is an impossible value!***'' @ [CHR 0x0A]]"
  using error_branch_reachable [OF example_order, of example_process "\<lambda>i. example_process"]
    example_order example_printed
  by blast



end
